theory Spec2Isabelle
  imports Complex_Main
begin

section \<open>Shape detector: data model\<close>

text \<open>
  The TypeScript class \<open>ShapeDetector\<close> of \<open>src/main.ts\<close> is embedded function by
  function.  Conventions of the embedding:
  \<^item> pixel coordinates, array indices, image dimensions and byte samples are integers
    (\<open>int\<close>, \<open>nat\<close>);
  \<^item> every other JavaScript number is an ideal real: the rounding of IEEE doubles and of
    the \<open>Float32Array\<close> is not modelled;
  \<^item> a \<open>NaN\<close> that the code can produce from its input (a sample read past the end of
    the byte array) is the value \<open>None\<close> of an option type, and each operation on it is
    written out as JavaScript evaluates it;
  \<^item> an exception is the left injection of a sum type.
\<close>

datatype error =
  InvalidArrayLength  \<comment> \<open>RangeError of a typed array constructor called with a negative length\<close>
| CallStackExceeded   \<comment> \<open>RangeError of a recursion that never reaches its base case\<close>

text \<open>\<open>interface Point { x: number; y: number }\<close>; the selectors are \<open>px\<close> and \<open>py\<close>.\<close>

datatype Point = Point (px: int) (py: int)

section \<open>Polygon simplifier\<close>

definition perpendicularDistance :: "Point \<Rightarrow> Point \<Rightarrow> Point \<Rightarrow> real" where
  "perpendicularDistance point lineStart lineEnd =
     (let dx = px lineEnd - px lineStart;
          dy = py lineEnd - py lineStart;
          norm = sqrt (real_of_int (dx * dx + dy * dy))
      in if norm = 0
         then sqrt (real_of_int ((px point - px lineStart)\<^sup>2 + (py point - py lineStart)\<^sup>2))
         else \<bar>real_of_int (dy * px point - dx * py point
                 + px lineEnd * py lineStart - py lineEnd * px lineStart)\<bar> / norm)"

text \<open>
  The \<open>for\<close> loop of \<open>rdp\<close> over \<open>i = start + 1 .. end - 1\<close>: one step updates the pair
  \<open>(maxDist, maxIndex)\<close>, the loop starts from \<open>(0, start)\<close>.
\<close>

definition farthestStep :: "Point list \<Rightarrow> nat \<Rightarrow> nat \<Rightarrow> nat \<Rightarrow> real \<times> nat \<Rightarrow> real \<times> nat" where
  "farthestStep points start fin i acc =
     (let dist = perpendicularDistance (points ! i) (points ! start) (points ! fin)
      in if dist > fst acc then (dist, i) else acc)"

definition farthest :: "Point list \<Rightarrow> nat \<Rightarrow> nat \<Rightarrow> real \<times> nat" where
  "farthest points start fin =
     fold (farthestStep points start fin) [Suc start ..< fin] (0, start)"

lemma farthest_fold_index:
  "snd acc = start \<or> (start < snd acc \<and> snd acc < fin) \<Longrightarrow> set is \<subseteq> {Suc start ..< fin} \<Longrightarrow>
   snd (fold (farthestStep points start fin) is acc) = start \<or>
   (start < snd (fold (farthestStep points start fin) is acc) \<and>
    snd (fold (farthestStep points start fin) is acc) < fin)"
proof (induction "is" arbitrary: acc)
  case Nil
  then show ?case by simp
next
  case (Cons i "is")
  have "snd (farthestStep points start fin i acc) = start \<or>
        (start < snd (farthestStep points start fin i acc) \<and>
         snd (farthestStep points start fin i acc) < fin)"
    using Cons.prems by (auto simp: farthestStep_def Let_def)
  then show ?case
    using Cons.IH [of "farthestStep points start fin i acc"] Cons.prems(2) by simp
qed

lemma farthest_index:
  "snd (farthest points start fin) = start \<or>
   (start < snd (farthest points start fin) \<and> snd (farthest points start fin) < fin)"
  unfolding farthest_def by (rule farthest_fold_index) auto

text \<open>
  The closure \<open>rdp\<close> of \<open>approximatePolygon\<close>.  When the farthest distance exceeds \<open>eps\<close>
  although no interior point moved \<open>maxIndex\<close> off \<open>start\<close> (all distances are 0 and
  \<open>eps\<close> is negative), the second recursive call is \<open>rdp(points, start, end, eps)\<close>
  again: the recursion never returns and JavaScript raises a RangeError.  The depth of a
  recursion that does return is not bounded here.
\<close>

function rdp :: "Point list \<Rightarrow> nat \<Rightarrow> nat \<Rightarrow> real \<Rightarrow> error + Point list" where
  "rdp points start fin eps =
     (if fin - start < 2 then Inr [points ! start]
      else
        let maxDist = fst (farthest points start fin);
            maxIndex = snd (farthest points start fin)
        in if maxDist > eps then
             (if maxIndex = start then Inl CallStackExceeded
              else
                (case rdp points start maxIndex eps of
                   Inl e \<Rightarrow> Inl e
                 | Inr left \<Rightarrow>
                     (case rdp points maxIndex fin eps of
                        Inl e \<Rightarrow> Inl e
                      | Inr right \<Rightarrow> Inr (left @ right))))
           else Inr [points ! start])"
  by pat_completeness auto
termination
proof (relation "measure (\<lambda>(points, start, fin, eps). fin - start)")
  show "wf (measure (\<lambda>(points, start, fin, eps). fin - start))" by simp
next
  fix points :: "Point list" and start fin :: nat and eps :: real and x xa
  assume "\<not> fin - start < 2" "x = fst (farthest points start fin)"
    "xa = snd (farthest points start fin)" "xa \<noteq> start"
  then show "((points, start, xa, eps), (points, start, fin, eps))
        \<in> measure (\<lambda>(points, start, fin, eps). fin - start)"
    using farthest_index [of points start fin] by auto
next
  fix points :: "Point list" and start fin :: nat and eps :: real and x xa x2
  assume "\<not> fin - start < 2" "x = fst (farthest points start fin)"
    "xa = snd (farthest points start fin)" "xa \<noteq> start"
  then show "((points, xa, fin, eps), (points, start, fin, eps))
        \<in> measure (\<lambda>(points, start, fin, eps). fin - start)"
    using farthest_index [of points start fin] by auto
qed

declare rdp.simps [simp del]

definition approximatePolygon :: "Point list \<Rightarrow> real \<Rightarrow> error + Point list" where
  "approximatePolygon contour epsilon =
     (if length contour < 3 then Inr contour
      else
        (case rdp contour 0 (length contour - 1) epsilon of
           Inl e \<Rightarrow> Inl e
         | Inr simplified0 \<Rightarrow>
             let simplified = simplified0 @ [contour ! (length contour - 1)]
             in Inr (if length simplified \<ge> 3 then simplified else contour)))"

section \<open>Geometry utilities\<close>

text \<open>
  The bounding box of integer points has integer fields.  \<open>getBoundingBox\<close> starts from
  \<open>\<plusminus>Infinity\<close>; every call of the pipeline passes a list of at least three points, and
  the model leaves the box of the empty list unspecified.
\<close>

record BoundingBox =
  bbX :: int
  bbY :: int
  bbWidth :: int
  bbHeight :: int

fun getBoundingBox :: "Point list \<Rightarrow> BoundingBox" where
  "getBoundingBox (p # ps) =
     (let minX = fold (\<lambda>point m. min m (px point)) ps (px p);
          minY = fold (\<lambda>point m. min m (py point)) ps (py p);
          maxX = fold (\<lambda>point m. max m (px point)) ps (px p);
          maxY = fold (\<lambda>point m. max m (py point)) ps (py p)
      in \<lparr>bbX = minX, bbY = minY, bbWidth = maxX - minX, bbHeight = maxY - minY\<rparr>)"

definition calculateArea :: "Point list \<Rightarrow> real" where
  "calculateArea contour =
     \<bar>real_of_int
        (fold (\<lambda>i a.
                 let j = (i + 1) mod length contour
                 in a + px (contour ! i) * py (contour ! j) - px (contour ! j) * py (contour ! i))
           [0 ..< length contour] 0)\<bar> / 2"

definition calculatePerimeter :: "Point list \<Rightarrow> real" where
  "calculatePerimeter points =
     fold (\<lambda>i perimeter.
             let j = (i + 1) mod length points;
                 dx = px (points ! j) - px (points ! i);
                 dy = py (points ! j) - py (points ! i)
             in perimeter + sqrt (real_of_int (dx * dx + dy * dy)))
       [0 ..< length points] 0"

text \<open>\<open>Math.round\<close> rounds to the nearest integer, a tie towards \<open>+\<infinity>\<close>.\<close>

definition jsRound :: "real \<Rightarrow> int" where
  "jsRound v = \<lfloor>v + 1 / 2\<rfloor>"

text \<open>
  The centroid of the empty list is \<open>NaN\<close> in the source; the pipeline calls
  \<open>calculateCentroid\<close> on lists of at least three points only.
\<close>

definition calculateCentroid :: "Point list \<Rightarrow> Point" where
  "calculateCentroid contour =
     (let sumX = fold (\<lambda>point s. s + px point) contour 0;
          sumY = fold (\<lambda>point s. s + py point) contour 0
      in Point (jsRound (real_of_int sumX / real (length contour)))
               (jsRound (real_of_int sumY / real (length contour))))"

definition crossProduct :: "Point \<Rightarrow> Point \<Rightarrow> Point \<Rightarrow> int" where
  "crossProduct o' a b =
     (px a - px o') * (py b - py o') - (py a - py o') * (px b - px o')"

text \<open>
  \<open>Array.prototype.sort\<close> is stable.  For a comparator that is a total preorder every
  stable sort returns the same array; the model sorts by insertion.
\<close>

fun insertBy :: "('a \<Rightarrow> 'a \<Rightarrow> real) \<Rightarrow> 'a \<Rightarrow> 'a list \<Rightarrow> 'a list" where
  "insertBy cmp v [] = [v]"
| "insertBy cmp v (w # ws) = (if cmp v w \<le> 0 then v # w # ws else w # insertBy cmp v ws)"

definition sortBy :: "('a \<Rightarrow> 'a \<Rightarrow> real) \<Rightarrow> 'a list \<Rightarrow> 'a list" where
  "sortBy cmp vs = foldr (insertBy cmp) vs []"

text \<open>\<open>Math.atan2(y, x)\<close> on finite arguments without negative zeros.\<close>

definition atan2 :: "real \<Rightarrow> real \<Rightarrow> real" where
  "atan2 v u =
     (if 0 < u then arctan (v / u)
      else if u < 0 then (if 0 \<le> v then arctan (v / u) + pi else arctan (v / u) - pi)
      else if 0 < v then pi / 2
      else if v < 0 then - (pi / 2)
      else 0)"

definition hullCompare :: "Point \<Rightarrow> Point \<Rightarrow> Point \<Rightarrow> real" where
  "hullCompare start a b =
     (let angleA = atan2 (real_of_int (py a - py start)) (real_of_int (px a - px start));
          angleB = atan2 (real_of_int (py b - py start)) (real_of_int (px b - px start))
      in if angleA \<noteq> angleB then angleA - angleB
         else real_of_int ((px a - px start)\<^sup>2 + (py a - py start)\<^sup>2)
              - real_of_int ((px b - px start)\<^sup>2 + (py b - py start)\<^sup>2))"

text \<open>The \<open>while\<close> loop of the scan: pop while the last two points and \<open>p\<close> do not turn left.\<close>

function hullPop :: "Point list \<Rightarrow> Point \<Rightarrow> Point list" where
  "hullPop stack p =
     (if length stack > 1 \<and>
         crossProduct (stack ! (length stack - 2)) (stack ! (length stack - 1)) p \<le> 0
      then hullPop (butlast stack) p
      else stack)"
  by pat_completeness auto
termination
  by (relation "measure (\<lambda>(stack, p). length stack)") auto

declare hullPop.simps [simp del]

definition convexHull :: "Point list \<Rightarrow> Point list" where
  "convexHull points =
     (if length points < 3 then points
      else
        let start = fold (\<lambda>point start.
                       if py point < py start \<or> (py point = py start \<and> px point < px start)
                       then point else start) points (points ! 0);
            sorted = sortBy (hullCompare start) points
        in fold (\<lambda>p stack. hullPop stack p @ [p]) (drop 2 sorted) [sorted ! 0, sorted ! 1])"

section \<open>Shape classifier\<close>

text \<open>The union type of \<open>DetectedShape.type\<close>, \<open>"square"\<close> included.\<close>

datatype ShapeType = Circle | Triangle | Rectangle | Square | Pentagon | Star

record DetectedShape =
  shapeType :: ShapeType
  confidence :: real
  boundingBox :: BoundingBox
  center :: Point
  area :: int

record DetectionResult =
  shapes :: "DetectedShape list"
  processingTime :: real
  imageWidth :: int
  imageHeight :: int

text \<open>
  \<open>aspectRatio\<close> and \<open>normalizedAspect\<close>, computed alike by the classifier and by the
  candidate selector.  With \<open>aspectRatio = 0\<close> the quotient \<open>1 / aspectRatio\<close> is
  \<open>Infinity\<close> and \<open>Math.min\<close> returns 0.
\<close>

definition normalizedAspectOf :: "BoundingBox \<Rightarrow> real" where
  "normalizedAspectOf bbox =
     (let aspectRatio = (if bbWidth bbox > 0
                         then real_of_int (bbHeight bbox) / real_of_int (bbWidth bbox) else 1)
      in if aspectRatio = 0 then 0 else min aspectRatio (1 / aspectRatio))"

text \<open>The star test of the classifier, on the vertex distances from the centroid.\<close>

definition starDistances :: "Point list \<Rightarrow> real list" where
  "starDistances approx =
     (let center = calculateCentroid approx
      in map (\<lambda>point. sqrt (real_of_int ((px point - px center) * (px point - px center)
                                        + (py point - py center) * (py point - py center))))
           approx)"

definition countAlternations :: "real list \<Rightarrow> nat" where
  "countAlternations distances =
     fold (\<lambda>i alternations.
             let prev = distances ! ((i + length distances - 1) mod length distances);
                 curr = distances ! i;
                 next = distances ! ((i + 1) mod length distances)
             in if (curr > prev \<and> curr > next) \<or> (curr < prev \<and> curr < next)
                then alternations + 1 else alternations)
       [0 ..< length distances] 0"

text \<open>
  \<open>classifyShapeAdvanced\<close>; \<open>None\<close> is \<open>null\<close>.  The only call passes the area and
  the perimeter of a contour whose area is at least 50, so \<open>perimeter\<close> is positive there.
\<close>

definition classifyShapeAdvanced ::
  "Point list \<Rightarrow> real \<Rightarrow> real \<Rightarrow> BoundingBox \<Rightarrow> (ShapeType \<times> real) option" where
  "classifyShapeAdvanced approx contourArea perimeter bbox =
     (let vertices = length approx;
          circularity = (4 * pi * contourArea) / (perimeter * perimeter);
          normalizedAspect = normalizedAspectOf bbox;
          hullArea = calculateArea (convexHull approx);
          convexity = (if hullArea > 0 then contourArea / hullArea else 0);
          bboxArea = real_of_int (bbWidth bbox * bbHeight bbox);
          extent = (if bboxArea > 0 then contourArea / bboxArea else 0)
      in
      let solid =
            (if convexity > 0.75 then
               (if vertices = 3 then Some (Triangle, min 0.95 (0.80 + convexity * 0.15))
                else if vertices = 4 then
                  (if circularity < 0.65 \<and> extent < 0.60
                   then Some (Triangle, min 0.85 (0.70 + convexity * 0.15))
                   else Some (Rectangle, min 0.95 (0.80 + convexity * 0.15)))
                else if vertices = 5 then
                  (let isSquareLike = (circularity > 0.75 \<and> extent > 0.95
                                       \<and> normalizedAspect > 0.95);
                       isRectLike = (extent > 0.85 \<and> (circularity > 0.50 \<and> circularity < 0.80));
                       isRotatedRect = (circularity > 0.50 \<and> circularity < 0.70
                                        \<and> convexity > 0.90 \<and> extent < 0.70)
                   in if isSquareLike \<or> isRectLike \<or> isRotatedRect
                      then Some (Rectangle, min 0.90 (0.75 + convexity * 0.15))
                      else Some (Pentagon, min 0.95 (0.75 + convexity * 0.20)))
                else if vertices = 6 then Some (Pentagon, min 0.88 (0.70 + convexity * 0.18))
                else None)
             else None)
      in
      case solid of
        Some r \<Rightarrow> Some r
      | None \<Rightarrow>
          if circularity > 0.75 \<and> extent > 0.65 then
            Some (Circle, min 0.95 (0.70 + circularity * 0.25))
          else
            (let star =
               (if vertices \<ge> 8 \<and> vertices \<le> 12 \<and> convexity \<ge> 0.30 \<and> convexity \<le> 0.75 then
                  (let distances = starDistances approx;
                       alternationScore =
                         real (countAlternations distances) / real (length distances);
                       sorted = sortBy (\<lambda>a b. a - b) distances;
                       shortDist = sorted ! (length sorted div 4);
                       longDist = sorted ! (3 * length sorted div 4);
                       alternationRatio = longDist / (if shortDist = 0 then 1 else shortDist)
                   in if alternationRatio > 1.15 \<and> alternationScore > 0.5
                      then Some (Star, min 0.90 (0.60 + (alternationRatio - 1) * 0.20
                                                  + alternationScore * 0.10))
                      else None)
                else None)
             in case star of
                  Some r \<Rightarrow> Some r
                | None \<Rightarrow>
                    if circularity > 0.60 \<and> extent > 0.55 then Some (Circle, 0.60)
                    else if vertices = 3 \<and> convexity > 0.60 then
                      Some (Triangle, min 0.75 (0.55 + convexity * 0.20))
                    else if vertices = 4 \<and> convexity > 0.65 then Some (Rectangle, 0.60)
                    else if vertices = 5 \<and> convexity > 0.65 then Some (Pentagon, 0.60)
                    else None))"

section \<open>Duplicate suppressor\<close>

definition calculateIoU :: "BoundingBox \<Rightarrow> BoundingBox \<Rightarrow> real" where
  "calculateIoU a b =
     (let x1 = max (bbX a) (bbX b);
          y1 = max (bbY a) (bbY b);
          x2 = min (bbX a + bbWidth a) (bbX b + bbWidth b);
          y2 = min (bbY a + bbHeight a) (bbY b + bbHeight b);
          intersection = max 0 (x2 - x1) * max 0 (y2 - y1);
          union = bbWidth a * bbHeight a + bbWidth b * bbHeight b - intersection
      in if union > 0 then real_of_int intersection / real_of_int union else 0)"

text \<open>
  The \<open>while\<close> loop of \<open>nonMaxSuppression\<close>: \<open>shift\<close> takes the head, the backwards
  \<open>splice\<close> loop removes every remaining shape whose overlap with it exceeds the
  threshold and keeps the others in order.
\<close>

function nmsLoop :: "real \<Rightarrow> DetectedShape list \<Rightarrow> DetectedShape list \<Rightarrow> DetectedShape list" where
  "nmsLoop iouThreshold [] keep = keep"
| "nmsLoop iouThreshold (current # rest) keep =
     nmsLoop iouThreshold
       (filter (\<lambda>s. \<not> calculateIoU (boundingBox current) (boundingBox s) > iouThreshold) rest)
       (keep @ [current])"
  by pat_completeness auto
termination
  by (relation "measure (\<lambda>(t, sorted, keep). length sorted)") (auto simp: less_Suc_eq_le)

definition nonMaxSuppression :: "DetectedShape list \<Rightarrow> real \<Rightarrow> DetectedShape list" where
  "nonMaxSuppression shapes0 iouThreshold =
     (if length shapes0 = 0 then []
      else nmsLoop iouThreshold (sortBy (\<lambda>a b. confidence b - confidence a) shapes0) [])"

section \<open>Grayscale converter and adaptive binarizer\<close>

text \<open>
  \<open>ImageData\<close>: the dimensions and the RGBA bytes, four per pixel, row by row.  A read
  past the end of the \<open>Uint8ClampedArray\<close> is \<open>undefined\<close>, and the luminance computed
  from it is \<open>NaN\<close>, here \<open>None\<close>.
\<close>

record ImageData =
  imgWidth :: int
  imgHeight :: int
  imgData :: "nat list"

definition luma :: "nat list \<Rightarrow> nat \<Rightarrow> real option" where
  "luma bytes idx =
     (if idx + 2 < length bytes
      then Some (0.299 * real (bytes ! idx) + 0.587 * real (bytes ! (idx + 1))
                 + 0.114 * real (bytes ! (idx + 2)))
      else None)"

text \<open>\<open>new Float32Array(width * height)\<close> throws a RangeError on a negative length.\<close>

definition toGrayscale :: "nat list \<Rightarrow> int \<Rightarrow> int \<Rightarrow> error + real option list" where
  "toGrayscale bytes width height =
     (if width * height < 0 then Inl InvalidArrayLength
      else Inr (map (\<lambda>i. luma bytes (i * 4)) [0 ..< nat (width * height)]))"

text \<open>
  The first loop of \<open>otsuThreshold\<close>.  For a \<open>NaN\<close> luminance \<open>val\<close> is \<open>NaN\<close>:
  \<open>histogram[NaN]++\<close> changes none of the 256 bins and \<open>Math.max\<close> makes \<open>maxVal\<close>
  \<open>NaN\<close> for good.
\<close>

definition histogramStep :: "real option \<Rightarrow> nat list \<times> nat option \<Rightarrow> nat list \<times> nat option" where
  "histogramStep g acc =
     (case g of
        None \<Rightarrow> (fst acc, None)
      | Some v \<Rightarrow>
          let val = nat (min 255 (max 0 (jsRound v)))
          in ((fst acc)[val := fst acc ! val + 1],
              (case snd acc of None \<Rightarrow> None | Some m \<Rightarrow> Some (max m val))))"

text \<open>One value of \<open>t\<close> in the search loop: the between-class variance at \<open>t\<close>.\<close>

definition otsuVariance :: "real list \<Rightarrow> nat \<Rightarrow> nat \<Rightarrow> real" where
  "otsuVariance histogram maxVal t =
     (let w0 = fold (\<lambda>i w. w + histogram ! i) [0 ..< Suc t] 0;
          s0 = fold (\<lambda>i m. m + real i * histogram ! i) [0 ..< Suc t] 0;
          mu0 = (if w0 > 0 then s0 / w0 else s0);
          w1 = fold (\<lambda>i w. w + histogram ! i) [Suc t ..< Suc maxVal] 0;
          s1 = fold (\<lambda>i m. m + real i * histogram ! i) [Suc t ..< Suc maxVal] 0;
          mu1 = (if w1 > 0 then s1 / w1 else s1)
      in w0 * w1 * (mu0 - mu1) * (mu0 - mu1))"

text \<open>
  \<open>otsuThreshold\<close>.  With \<open>maxVal = NaN\<close> neither loop over \<open>i <= maxVal\<close> runs and the
  result is 0.  For the empty array \<open>histogram[0]\<close> becomes \<open>0 / 0 = NaN\<close>, no variance
  exceeds \<open>maxVariance\<close> and the result is 0; the model, where \<open>0 / 0 = 0\<close>, returns 0
  as well.
\<close>

definition otsuThreshold :: "real option list \<Rightarrow> nat" where
  "otsuThreshold gray =
     (case snd (fold histogramStep gray (replicate 256 0, Some 0)) of
        None \<Rightarrow> 0
      | Some maxVal \<Rightarrow>
          let counts = fst (fold histogramStep gray (replicate 256 0, Some 0));
              total = length gray;
              histogram = map (\<lambda>i. if i \<le> maxVal then real (counts ! i) / real total
                                    else real (counts ! i)) [0 ..< 256]
          in fst (fold (\<lambda>t best.
                          let variance = otsuVariance histogram maxVal t
                          in if variance > snd best then (t, variance) else best)
                    [0 ..< Suc maxVal] (0, 0)))"

text \<open>
  The binarization of \<open>detectShapes\<close>: the count of the pixels below the Otsu threshold,
  the choice of the threshold and the mask.  A \<open>NaN\<close> luminance is below no threshold.
\<close>

definition below :: "real option \<Rightarrow> real \<Rightarrow> bool" where
  "below g t = (case g of None \<Rightarrow> False | Some v \<Rightarrow> v < t)"

definition otsuForeground :: "real option list \<Rightarrow> nat \<Rightarrow> nat" where
  "otsuForeground grayscale otsu =
     fold (\<lambda>g n. if below g (real otsu) then n + 1 else n) grayscale 0"

definition chooseThreshold :: "real option list \<Rightarrow> int \<Rightarrow> int \<Rightarrow> nat" where
  "chooseThreshold grayscale width height =
     (let otsu = otsuThreshold grayscale;
          otsuRatio = real (otsuForeground grayscale otsu) / real_of_int (width * height)
      in if otsuRatio > 0.05 \<and> otsuRatio < 0.50 then otsu else 128)"

definition binarize :: "real option list \<Rightarrow> nat \<Rightarrow> nat list" where
  "binarize grayscale threshold =
     map (\<lambda>g. if below g (real threshold) then 255 else 0) grayscale"

section \<open>Contour extractor\<close>

text \<open>
  Reads and writes of the typed arrays \<open>binary\<close> and \<open>visited\<close>: a read outside the array
  is \<open>undefined\<close> (\<open>None\<close>), a write outside the array is ignored.
\<close>

definition readAt :: "nat list \<Rightarrow> int \<Rightarrow> nat option" where
  "readAt arr idx = (if 0 \<le> idx \<and> nat idx < length arr then Some (arr ! nat idx) else None)"

definition writeAt :: "nat list \<Rightarrow> int \<Rightarrow> nat \<Rightarrow> nat list" where
  "writeAt arr idx v = (if 0 \<le> idx then arr[nat idx := v] else arr)"

definition directions :: "(int \<times> int) list" where
  "directions = [(1, 0), (1, -1), (0, -1), (-1, -1), (-1, 0), (-1, 1), (0, 1), (1, 1)]"

text \<open>
  The inner \<open>for\<close> loop of \<open>borderFollowing\<close>: the first of the eight directions, from
  \<open>dir\<close> on, whose neighbour lies in the image and is foreground; the result is that
  neighbour and the next search direction.
\<close>

definition findNext :: "nat list \<Rightarrow> int \<Rightarrow> int \<Rightarrow> Point \<Rightarrow> nat \<Rightarrow> (Point \<times> nat) option" where
  "findNext binary width height current dir =
     (case List.find
             (\<lambda>i. let checkDir = (dir + i) mod 8;
                       nx = px current + fst (directions ! checkDir);
                       ny = py current + snd (directions ! checkDir)
                   in nx \<ge> 0 \<and> nx < width \<and> ny \<ge> 0 \<and> ny < height
                      \<and> readAt binary (ny * width + nx) = Some 255)
             [0 ..< 8] of
        None \<Rightarrow> None
      | Some i \<Rightarrow>
          let checkDir = (dir + i) mod 8
          in Some (Point (px current + fst (directions ! checkDir))
                         (py current + snd (directions ! checkDir)),
                   (checkDir + 6) mod 8))"

text \<open>
  The \<open>do ... while\<close> loop of \<open>borderFollowing\<close> on the state \<open>(visited, contour,
  current, dir, iterations)\<close>; the iteration cap \<open>width * height\<close> of the source bounds it.
\<close>

function borderLoop ::
  "nat list \<Rightarrow> int \<Rightarrow> int \<Rightarrow> Point \<Rightarrow> nat list \<times> Point list \<times> Point \<times> nat \<times> int
     \<Rightarrow> nat list \<times> Point list" where
  "borderLoop binary width height start (visited, contour, current, dir, iterations) =
     (let contour' = contour @ [current];
          visited' = writeAt visited (py current * width + px current) 1
      in case findNext binary width height current dir of
           None \<Rightarrow> (visited', contour')
         | Some (next, dir') \<Rightarrow>
             if \<not> (px next = px start \<and> py next = py start) \<and> iterations + 1 < width * height
             then borderLoop binary width height start
                    (visited', contour', next, dir', iterations + 1)
             else (visited', contour'))"
  by pat_completeness auto
termination
  by (relation "measure (\<lambda>(binary, width, height, start, visited, contour, current, dir, iterations).
                  nat (width * height - iterations))") auto

declare borderLoop.simps [simp del]

definition borderFollowing ::
  "nat list \<Rightarrow> nat list \<Rightarrow> int \<Rightarrow> int \<Rightarrow> int \<Rightarrow> int \<Rightarrow> nat list \<times> Point list" where
  "borderFollowing binary visited startX startY width height =
     borderLoop binary width height (Point startX startY)
       (visited, [], Point startX startY, 0, 0)"

text \<open>The edge test of \<open>traceContours\<close>: some neighbour inside the image is background.\<close>

definition isEdge :: "nat list \<Rightarrow> int \<Rightarrow> int \<Rightarrow> int \<Rightarrow> int \<Rightarrow> bool" where
  "isEdge binary width height x0 y0 =
     list_ex (\<lambda>(dx, dy).
                \<not> (dx = 0 \<and> dy = 0) \<and>
                (let nx = x0 + dx; ny = y0 + dy
                 in nx \<ge> 0 \<and> nx < width \<and> ny \<ge> 0 \<and> ny < height
                    \<and> readAt binary (ny * width + nx) = Some 0))
       (concat (map (\<lambda>dy. map (\<lambda>dx. (dx, dy)) [-1, 0, 1]) [-1, 0, 1]))"

text \<open>The body of the two scan loops, on the state \<open>(visited, contours)\<close>.\<close>

definition traceStep ::
  "nat list \<Rightarrow> int \<Rightarrow> int \<Rightarrow> int \<times> int \<Rightarrow> nat list \<times> Point list list
     \<Rightarrow> nat list \<times> Point list list" where
  "traceStep binary width height xy state =
     (let x0 = fst xy; y0 = snd xy; idx = y0 * width + x0;
          visited = fst state; contours = snd state
      in if readAt binary idx = Some 255
            \<and> (case readAt visited idx of None \<Rightarrow> True | Some v \<Rightarrow> v = 0)
         then
           (if isEdge binary width height x0 y0
            then
              (let traced = borderFollowing binary visited x0 y0 width height
               in (fst traced,
                   if length (snd traced) \<ge> 10 then contours @ [snd traced] else contours))
            else state)
         else state)"

definition scanOrder :: "int \<Rightarrow> int \<Rightarrow> (int \<times> int) list" where
  "scanOrder width height =
     concat (map (\<lambda>y0. map (\<lambda>x0. (x0, y0)) [1 .. width - 2]) [1 .. height - 2])"

definition traceContours :: "nat list \<Rightarrow> int \<Rightarrow> int \<Rightarrow> error + Point list list" where
  "traceContours binary width height =
     (if width * height < 0 then Inl InvalidArrayLength
      else Inr (snd (fold (traceStep binary width height) (scanOrder width height)
                       (replicate (nat (width * height)) 0, []))))"

section \<open>Candidate selector and orchestrator\<close>

definition epsilons :: "real list" where
  "epsilons = [0.008, 0.01, 0.012, 0.015, 0.02, 0.025, 0.03, 0.035, 0.04, 0.045, 0.05]"

definition vertexBonus :: "nat \<Rightarrow> real" where
  "vertexBonus v =
     (if v = 3 then 0.30 else if v = 4 then 0.25 else if v = 5 then 0.10
      else if v \<ge> 8 \<and> v \<le> 12 then 0.08 else 0)"

text \<open>
  The loop over the tolerances, on the state \<open>(bestShape, bestScore)\<close>.  An exception of
  \<open>approximatePolygon\<close> leaves the loop.
\<close>

fun selectBest ::
  "Point list \<Rightarrow> real \<Rightarrow> real \<Rightarrow> real list
     \<Rightarrow> (ShapeType \<times> real \<times> Point list) option \<times> real
     \<Rightarrow> error + ((ShapeType \<times> real \<times> Point list) option \<times> real)" where
  "selectBest contour contourArea perimeter [] best = Inr best"
| "selectBest contour contourArea perimeter (eps # rest) best =
     (case approximatePolygon contour (eps * perimeter) of
        Inl e \<Rightarrow> Inl e
      | Inr approx \<Rightarrow>
          if length approx < 3 then selectBest contour contourArea perimeter rest best
          else
            (case classifyShapeAdvanced approx contourArea perimeter (getBoundingBox approx) of
               None \<Rightarrow> selectBest contour contourArea perimeter rest best
             | Some shapeInfo \<Rightarrow>
                 let score = snd shapeInfo + vertexBonus (length approx)
                 in if score > snd best
                    then selectBest contour contourArea perimeter rest
                           (Some (fst shapeInfo, snd shapeInfo, approx), score)
                    else selectBest contour contourArea perimeter rest best))"

text \<open>The body of the loop over the contours: the shape pushed for one contour, if any.\<close>

definition detectContour :: "int \<Rightarrow> int \<Rightarrow> Point list \<Rightarrow> error + DetectedShape option" where
  "detectContour width height contour =
     (if length contour < 10 then Inr None
      else
        let contourArea = calculateArea contour;
            minArea = max 50 (real_of_int (width * height) * 0.0005);
            maxArea = real_of_int (width * height) * 0.9
        in if contourArea < minArea \<or> contourArea > maxArea then Inr None
           else
             let perimeter = calculatePerimeter contour
             in if normalizedAspectOf (getBoundingBox contour) < 0.15 then Inr None
                else
                  (case selectBest contour contourArea perimeter epsilons (None, 0) of
                     Inl e \<Rightarrow> Inl e
                   | Inr best \<Rightarrow>
                       (case fst best of
                          None \<Rightarrow> Inr None
                        | Some bestShape \<Rightarrow>
                            if fst (snd bestShape) \<ge> 0.55
                            then Inr (Some \<lparr>shapeType = fst bestShape,
                                             confidence = fst (snd bestShape),
                                             boundingBox = getBoundingBox (snd (snd bestShape)),
                                             center = calculateCentroid (snd (snd bestShape)),
                                             area = jsRound contourArea\<rparr>)
                            else Inr None)))"

fun collectShapes ::
  "int \<Rightarrow> int \<Rightarrow> Point list list \<Rightarrow> DetectedShape list \<Rightarrow> error + DetectedShape list" where
  "collectShapes width height [] acc = Inr acc"
| "collectShapes width height (contour # rest) acc =
     (case detectContour width height contour of
        Inl e \<Rightarrow> Inl e
      | Inr None \<Rightarrow> collectShapes width height rest acc
      | Inr (Some shape) \<Rightarrow> collectShapes width height rest (acc @ [shape]))"

text \<open>The \<open>try\<close> block of \<open>detectShapes\<close>, up to the suppression of duplicates.\<close>

definition detectPipeline :: "ImageData \<Rightarrow> error + DetectedShape list" where
  "detectPipeline imageData =
     (let width = imgWidth imageData; height = imgHeight imageData
      in case toGrayscale (imgData imageData) width height of
           Inl e \<Rightarrow> Inl e
         | Inr grayscale \<Rightarrow>
             let threshold = chooseThreshold grayscale width height;
                 binary = binarize grayscale threshold
             in (case traceContours binary width height of
                   Inl e \<Rightarrow> Inl e
                 | Inr contours \<Rightarrow>
                     (case collectShapes width height contours [] of
                        Inl e \<Rightarrow> Inl e
                      | Inr found \<Rightarrow> Inr (nonMaxSuppression found 0.5))))"

text \<open>
  \<open>detectShapes\<close>.  The two readings of \<open>performance.now()\<close>, before the \<open>try\<close> block
  and when the result is built, are arguments: \<open>startTime\<close> and \<open>endTime\<close>.
\<close>

definition detectShapes :: "real \<Rightarrow> real \<Rightarrow> ImageData \<Rightarrow> DetectionResult" where
  "detectShapes startTime endTime imageData =
     (case detectPipeline imageData of
        Inr finalShapes \<Rightarrow>
          \<lparr>shapes = finalShapes, processingTime = endTime - startTime,
           imageWidth = imgWidth imageData, imageHeight = imgHeight imageData\<rparr>
      | Inl e \<Rightarrow>
          \<lparr>shapes = [], processingTime = endTime - startTime,
           imageWidth = imgWidth imageData, imageHeight = imgHeight imageData\<rparr>)"

section \<open>Auxiliary definitions and concrete inputs\<close>

text \<open>
  Evaluation aids: the numerator of \<open>perpendicularDistance\<close> and the squared length of
  the chord are integers, and the loop of \<open>rdp\<close> picks the same index on the numerators
  as on the distances.
\<close>

definition distNum :: "Point \<Rightarrow> Point \<Rightarrow> Point \<Rightarrow> int" where
  "distNum point lineStart lineEnd =
     \<bar>(py lineEnd - py lineStart) * px point - (px lineEnd - px lineStart) * py point
        + px lineEnd * py lineStart - py lineEnd * px lineStart\<bar>"

definition chordSq :: "Point \<Rightarrow> Point \<Rightarrow> int" where
  "chordSq lineStart lineEnd =
     (px lineEnd - px lineStart) * (px lineEnd - px lineStart)
       + (py lineEnd - py lineStart) * (py lineEnd - py lineStart)"

definition farthestNum :: "Point list \<Rightarrow> nat \<Rightarrow> nat \<Rightarrow> int \<times> nat" where
  "farthestNum points start fin =
     fold (\<lambda>i acc. let d = distNum (points ! i) (points ! start) (points ! fin)
                    in if d > fst acc then (d, i) else acc)
       [Suc start ..< fin] (0, start)"

text \<open>A contour of 15 points along two sides of a right triangle with sides 8, 6, 10.\<close>

definition bend :: "Point list" where
  "bend = [Point 0 0, Point 1 0, Point 2 0, Point 3 0, Point 4 0, Point 5 0, Point 6 0,
           Point 7 0, Point 8 0, Point 8 1, Point 8 2, Point 8 3, Point 8 4, Point 8 5,
           Point 8 6]"


text \<open>What the classifier may return: nothing, or a type other than square at 0.95 at most.\<close>

definition plausible :: "(ShapeType \<times> real) option \<Rightarrow> bool" where
  "plausible r = (case r of None \<Rightarrow> True | Some v \<Rightarrow> snd v \<le> 0.95 \<and> fst v \<noteq> Square)"

text \<open>What the candidate selector may push: a type other than square, a confidence in range.\<close>

definition admissible :: "DetectedShape \<Rightarrow> bool" where
  "admissible s = (0.55 \<le> confidence s \<and> confidence s \<le> 0.95 \<and> shapeType s \<noteq> Square)"

text \<open>
  Points that are not before \<open>start\<close> in the order of the pivot search: above it, or on
  its row and not to its left.
\<close>

definition notBefore :: "Point \<Rightarrow> Point \<Rightarrow> bool" where
  "notBefore start p = (py start < py p \<or> (py p = py start \<and> px start \<le> px p))"

text \<open>The comparator of the hull sort on such points, in integer arithmetic.\<close>

definition hullBefore :: "Point \<Rightarrow> Point \<Rightarrow> Point \<Rightarrow> bool" where
  "hullBefore start a b =
     (let ax = px a - px start; ay = py a - py start;
          bx = px b - px start; by' = py b - py start;
          cr = ax * by' - ay * bx;
          da = ax * ax + ay * ay; db = bx * bx + by' * by'
      in if ay = 0 \<and> by' = 0 then da \<le> db
         else if ay = 0 then True
         else if by' = 0 then False
         else cr > 0 \<or> (cr = 0 \<and> da \<le> db))"

text \<open>
  An 11 by 11 image: the one pixel wide outline of a square with corners \<open>(1, 1)\<close> and
  \<open>(9, 9)\<close>, black on white; its bytes, its binary mask, and the same image with the four
  bytes of its last pixel missing.
\<close>

definition onOutline :: "nat \<Rightarrow> bool" where
  "onOutline i =
     (let x0 = i mod 11; y0 = i div 11
      in ((x0 = 1 \<or> x0 = 9) \<and> 1 \<le> y0 \<and> y0 \<le> 9) \<or> ((y0 = 1 \<or> y0 = 9) \<and> 1 \<le> x0 \<and> x0 \<le> 9))"

definition squareBytes :: "nat list" where
  "squareBytes =
     concat (map (\<lambda>i. if onOutline i then [0, 0, 0, 255] else [255, 255, 255, 255]) [0 ..< 121])"

definition squareImage :: ImageData where
  "squareImage = \<lparr>imgWidth = 11, imgHeight = 11, imgData = squareBytes\<rparr>"

definition clippedImage :: ImageData where
  "clippedImage = \<lparr>imgWidth = 11, imgHeight = 11, imgData = take 480 squareBytes\<rparr>"

definition squareMask :: "nat list" where
  "squareMask = map (\<lambda>i. if onOutline i then 255 else 0) [0 ..< 121]"

text \<open>
  The two contours traced on that mask.  The walk from the corner \<open>(1, 1)\<close> cuts the
  corners, never comes back to its start and stops at the iteration cap of 121 steps:
  \<open>laps\<close>.  The walk from the corner \<open>(9, 1)\<close>, which the first one skipped, goes round
  the outline once: \<open>ring\<close>.  \<open>ringPolygon\<close> is the simplification of \<open>ring\<close> and
  \<open>squareShape\<close> the shape detected from it.
\<close>

definition ring :: "Point list" where
  "ring = [Point 9 1, Point 8 1, Point 7 1, Point 6 1, Point 5 1, Point 4 1, Point 3 1, Point 2 1,
           Point 1 1, Point 1 2, Point 1 3, Point 1 4, Point 1 5, Point 1 6, Point 1 7, Point 1 8,
           Point 1 9, Point 2 9, Point 3 9, Point 4 9, Point 5 9, Point 6 9, Point 7 9, Point 8 9,
           Point 9 9, Point 9 8, Point 9 7, Point 9 6, Point 9 5, Point 9 4, Point 9 3, Point 9 2]"

definition ringPolygon :: "Point list" where
  "ringPolygon = [Point 9 1, Point 1 1, Point 1 9, Point 9 9, Point 9 2]"

definition squareShape :: DetectedShape where
  "squareShape = \<lparr>shapeType = Rectangle, confidence = 0.9,
                   boundingBox = \<lparr>bbX = 1, bbY = 1, bbWidth = 8, bbHeight = 8\<rparr>,
                   center = Point 6 4, area = 64\<rparr>"

definition lap :: "Point list" where
  "lap = [Point 2 1, Point 3 1, Point 4 1, Point 5 1, Point 6 1, Point 7 1, Point 8 1,
          Point 9 2, Point 9 3, Point 9 4, Point 9 5, Point 9 6, Point 9 7, Point 9 8,
          Point 8 9, Point 7 9, Point 6 9, Point 5 9, Point 4 9, Point 3 9, Point 2 9,
          Point 1 8, Point 1 7, Point 1 6, Point 1 5, Point 1 4, Point 1 3, Point 1 2]"

definition laps :: "Point list" where
  "laps = Point 1 1 # take 120 (concat (replicate 5 lap))"

text \<open>Pixels inside the image, and pixels whose entry of the visited mask is set.\<close>

definition inImage :: "int \<Rightarrow> int \<Rightarrow> Point \<Rightarrow> bool" where
  "inImage width height p = (0 \<le> px p \<and> px p < width \<and> 0 \<le> py p \<and> py p < height)"

definition marked :: "int \<Rightarrow> nat list \<Rightarrow> Point \<Rightarrow> bool" where
  "marked width visited p =
     (case readAt visited (py p * width + px p) of None \<Rightarrow> False | Some v \<Rightarrow> v \<noteq> 0)"

text \<open>
  The invariant of the scan: the visited mask has the size of the image, every point of a
  collected contour is marked, and no collected contour starts on an earlier one.
\<close>

definition scanInv :: "int \<Rightarrow> int \<Rightarrow> nat list \<times> Point list list \<Rightarrow> bool" where
  "scanInv width height state =
     (length (fst state) = nat (width * height) \<and>
      (\<forall>c \<in> set (snd state). \<forall>p \<in> set c. marked width (fst state) p) \<and>
      sorted_wrt (\<lambda>c d. d \<noteq> [] \<and> hd d \<notin> set c) (snd state))"

text \<open>A 2 by 2 image of the grey levels 0, 1, 5, 5.\<close>

definition tinyBytes :: "nat list" where
  "tinyBytes = [0, 0, 0, 255, 1, 1, 1, 255, 5, 5, 5, 255, 5, 5, 5, 255]"

text \<open>A shape with a given confidence and bounding box.\<close>

definition boxed :: "real \<Rightarrow> int \<Rightarrow> int \<Rightarrow> int \<Rightarrow> int \<Rightarrow> DetectedShape" where
  "boxed c x0 y0 w h =
     \<lparr>shapeType = Rectangle, confidence = c,
      boundingBox = \<lparr>bbX = x0, bbY = y0, bbWidth = w, bbHeight = h\<rparr>,
      center = Point (x0 + w div 2) (y0 + h div 2), area = w * h\<rparr>"

text \<open>The result built by the \<open>catch\<close> block of \<open>detectShapes\<close>.\<close>

definition emptyResult :: "real \<Rightarrow> real \<Rightarrow> ImageData \<Rightarrow> DetectionResult" where
  "emptyResult startTime endTime imageData =
     \<lparr>shapes = [], processingTime = endTime - startTime,
      imageWidth = imgWidth imageData, imageHeight = imgHeight imageData\<rparr>"

text \<open>An image with a negative width, and an image without pixels.\<close>

definition inverted :: ImageData where
  "inverted = \<lparr>imgWidth = - 11, imgHeight = 11, imgData = squareBytes\<rparr>"

definition noPixels :: ImageData where
  "noPixels = \<lparr>imgWidth = 0, imgHeight = 0, imgData = []\<rparr>"

text \<open>
  Plane geometry for the hull, on vectors from the pivot: the determinant of two vectors,
  the turn of three points (positive for a left turn; \<open>crossProduct\<close> on reals), the
  order of the hull sort (\<open>u\<close> is before \<open>v\<close> counter-clockwise, or on the same ray and
  not farther), and membership in the triangle of the origin, \<open>a\<close> and \<open>c\<close>.
\<close>

definition det2 :: "real \<times> real \<Rightarrow> real \<times> real \<Rightarrow> real" where
  "det2 u v = fst u * snd v - snd u * fst v"

definition turn :: "real \<times> real \<Rightarrow> real \<times> real \<Rightarrow> real \<times> real \<Rightarrow> real" where
  "turn a b c = det2 a b + det2 b c + det2 c a"

definition ang :: "real \<times> real \<Rightarrow> real \<times> real \<Rightarrow> bool" where
  "ang u v = (0 \<le> det2 u v \<and>
              (det2 u v = 0 \<longrightarrow> (\<exists>k. 0 \<le> k \<and> k \<le> 1 \<and> fst u = k * fst v \<and> snd u = k * snd v)))"


text \<open>The vector from \<open>s\<close> to \<open>p\<close>, and the angular order around \<open>s\<close>.\<close>

definition rel :: "Point \<Rightarrow> Point \<Rightarrow> real \<times> real" where
  "rel s p = (real_of_int (px p - px s), real_of_int (py p - py s))"





section \<open>Properties of the polygon simplifier\<close>



lemma rdp_base: "fin - start < 2 \<Longrightarrow> rdp points start fin eps = Inr [points ! start]"
  by (simp add: rdp.simps)

lemma rdp_flat:
  "\<not> fin - start < 2 \<Longrightarrow> \<not> fst (farthest points start fin) > eps \<Longrightarrow>
   rdp points start fin eps = Inr [points ! start]"
  by (simp add: rdp.simps [of points start fin] Let_def)

lemma rdp_loop:
  "\<not> fin - start < 2 \<Longrightarrow> fst (farthest points start fin) > eps \<Longrightarrow>
   snd (farthest points start fin) = start \<Longrightarrow>
   rdp points start fin eps = Inl CallStackExceeded"
  by (simp add: rdp.simps [of points start fin] Let_def)

lemma rdp_split:
  "\<not> fin - start < 2 \<Longrightarrow> fst (farthest points start fin) > eps \<Longrightarrow>
   snd (farthest points start fin) \<noteq> start \<Longrightarrow>
   rdp points start fin eps =
     (case rdp points start (snd (farthest points start fin)) eps of
        Inl e \<Rightarrow> Inl e
      | Inr left \<Rightarrow>
          (case rdp points (snd (farthest points start fin)) fin eps of
             Inl e \<Rightarrow> Inl e
           | Inr right \<Rightarrow> Inr (left @ right)))"
  by (simp add: rdp.simps [of points start fin] Let_def)


lemma rdp_shape:
  "rdp points start fin eps = Inr S \<Longrightarrow>
   \<exists>r. S = points ! start # r \<and> (\<forall>p \<in> set r. \<exists>j. start < j \<and> j < fin \<and> p = points ! j)"
proof (induction points start fin eps arbitrary: S rule: rdp.induct)
  case (1 points start fin eps)
  show ?case
  proof (cases "fin - start < 2")
    case True
    then show ?thesis using "1.prems" by (auto simp: rdp_base)
  next
    case far: False
    show ?thesis
    proof (cases "fst (farthest points start fin) > eps")
      case False
      then show ?thesis using "1.prems" far by (auto simp: rdp_flat)
    next
      case big: True
      show ?thesis
      proof (cases "snd (farthest points start fin) = start")
        case True
        then show ?thesis using "1.prems" far big by (simp add: rdp_loop)
      next
        case ne: False
        let ?m = "snd (farthest points start fin)"
        from "1.prems" far big ne obtain l r where
          l: "rdp points start ?m eps = Inr l" and
          r: "rdp points ?m fin eps = Inr r" and
          S: "S = l @ r"
          by (auto simp: rdp_split split: sum.splits)
        have m: "start < ?m" "?m < fin"
          using farthest_index [of points start fin] ne by auto
        from "1.IH"(1) [OF far refl refl big ne l] obtain l' where
          l': "l = points ! start # l'"
              "\<forall>p \<in> set l'. \<exists>j. start < j \<and> j < ?m \<and> p = points ! j" by blast
        from "1.IH"(2) [OF far refl refl big ne l r] obtain r' where
          r': "r = points ! ?m # r'"
              "\<forall>p \<in> set r'. \<exists>j. ?m < j \<and> j < fin \<and> p = points ! j" by blast
        have "\<forall>p \<in> set (l' @ r). \<exists>j. start < j \<and> j < fin \<and> p = points ! j"
        proof
          fix p assume "p \<in> set (l' @ r)"
          then consider "p \<in> set l'" | "p = points ! ?m" | "p \<in> set r'"
            using r'(1) by auto
          then show "\<exists>j. start < j \<and> j < fin \<and> p = points ! j"
          proof cases
            case 1
            then obtain j where "start < j" "j < ?m" "p = points ! j" using l'(2) by blast
            then show ?thesis using m by (intro exI [of _ j]) simp
          next
            case 2
            then show ?thesis using m by blast
          next
            case 3
            then obtain j where "?m < j" "j < fin" "p = points ! j" using r'(2) by blast
            then show ?thesis using m by (intro exI [of _ j]) simp
          qed
        qed
        then show ?thesis using S l'(1) by simp
      qed
    qed
  qed
qed

lemma rdp_nonempty: "rdp points start fin eps = Inr S \<Longrightarrow> S \<noteq> []"
  using rdp_shape by blast

lemma farthest_fold_mono:
  "fst acc \<le> fst (fold (farthestStep points start fin) is acc)"
proof (induction "is" arbitrary: acc)
  case Nil
  then show ?case by simp
next
  case (Cons i "is")
  have "fst acc \<le> fst (farthestStep points start fin i acc)"
    by (simp add: farthestStep_def Let_def)
  also have "\<dots> \<le> fst (fold (farthestStep points start fin) is (farthestStep points start fin i acc))"
    by (rule Cons.IH)
  finally show ?case by simp
qed

lemma farthest_fold_upper:
  "j \<in> set is \<Longrightarrow>
   perpendicularDistance (points ! j) (points ! start) (points ! fin)
     \<le> fst (fold (farthestStep points start fin) is acc)"
proof (induction "is" arbitrary: acc)
  case Nil
  then show ?case by simp
next
  case (Cons i "is")
  show ?case
  proof (cases "j = i")
    case True
    have "perpendicularDistance (points ! j) (points ! start) (points ! fin)
            \<le> fst (farthestStep points start fin i acc)"
      using True by (simp add: farthestStep_def Let_def)
    also have "\<dots> \<le> fst (fold (farthestStep points start fin) is (farthestStep points start fin i acc))"
      by (rule farthest_fold_mono)
    finally show ?thesis by simp
  next
    case False
    then have "j \<in> set is" using Cons.prems by simp
    from Cons.IH [OF this] show ?thesis by simp
  qed
qed

lemma farthest_fold_below:
  "fst acc < D \<Longrightarrow>
   \<forall>j \<in> set is. perpendicularDistance (points ! j) (points ! start) (points ! fin) < D \<Longrightarrow>
   fst (fold (farthestStep points start fin) is acc) < D"
proof (induction "is" arbitrary: acc)
  case Nil
  then show ?case by simp
next
  case (Cons i "is")
  have "fst (farthestStep points start fin i acc) < D"
    using Cons.prems by (simp add: farthestStep_def Let_def)
  from Cons.IH [OF this] Cons.prems(2) show ?case by simp
qed

lemma farthest_fold_stay:
  "\<forall>j \<in> set is. perpendicularDistance (points ! j) (points ! start) (points ! fin) \<le> fst acc \<Longrightarrow>
   fold (farthestStep points start fin) is acc = acc"
proof (induction "is")
  case Nil
  then show ?case by simp
next
  case (Cons i "is")
  have "farthestStep points start fin i acc = acc"
    using Cons.prems by (simp add: farthestStep_def Let_def)
  then show ?case using Cons by simp
qed

lemma farthest_fold_char:
  "fold (farthestStep points start fin) is acc = acc \<or>
   (\<exists>pre k post. is = pre @ k # post \<and>
      fold (farthestStep points start fin) is acc
        = (perpendicularDistance (points ! k) (points ! start) (points ! fin), k) \<and>
      (\<forall>j \<in> set pre. perpendicularDistance (points ! j) (points ! start) (points ! fin)
          < perpendicularDistance (points ! k) (points ! start) (points ! fin)) \<and>
      fst acc < perpendicularDistance (points ! k) (points ! start) (points ! fin))"
proof (induction "is" rule: rev_induct)
  case Nil
  then show ?case by simp
next
  case (snoc x xs)
  let ?d = "\<lambda>j. perpendicularDistance (points ! j) (points ! start) (points ! fin)"
  let ?r = "fold (farthestStep points start fin) xs acc"
  show ?case
  proof (cases "?d x > fst ?r")
    case True
    then have res: "fold (farthestStep points start fin) (xs @ [x]) acc = (?d x, x)"
      by (simp add: farthestStep_def Let_def)
    have "\<forall>j \<in> set xs. ?d j < ?d x"
      using farthest_fold_upper [of _ xs points start fin acc] True by fastforce
    moreover have "fst acc < ?d x"
      using farthest_fold_mono [of acc points start fin xs] True by simp
    ultimately show ?thesis using res by blast
  next
    case False
    then have res: "fold (farthestStep points start fin) (xs @ [x]) acc = ?r"
      by (simp add: farthestStep_def Let_def)
    from snoc.IH show ?thesis
    proof
      assume "?r = acc"
      then show ?thesis using res by simp
    next
      assume "\<exists>pre k post. xs = pre @ k # post \<and> ?r = (?d k, k) \<and>
                (\<forall>j \<in> set pre. ?d j < ?d k) \<and> fst acc < ?d k"
      then obtain pre k post where
        "xs = pre @ k # post" "?r = (?d k, k)" "\<forall>j \<in> set pre. ?d j < ?d k" "fst acc < ?d k"
        by blast
      then have "xs @ [x] = pre @ k # (post @ [x])" by simp
      then show ?thesis
        using res \<open>?r = (?d k, k)\<close> \<open>\<forall>j \<in> set pre. ?d j < ?d k\<close> \<open>fst acc < ?d k\<close> by metis
    qed
  qed
qed

lemma farthest_char:
  assumes ne: "snd (farthest points start fin) \<noteq> start"
  shows "start < snd (farthest points start fin) \<and> snd (farthest points start fin) < fin \<and>
         fst (farthest points start fin)
           = perpendicularDistance (points ! snd (farthest points start fin))
               (points ! start) (points ! fin) \<and>
         0 < fst (farthest points start fin) \<and>
         (\<forall>j. start < j \<and> j < snd (farthest points start fin) \<longrightarrow>
            perpendicularDistance (points ! j) (points ! start) (points ! fin)
              < fst (farthest points start fin)) \<and>
         (\<forall>j. start < j \<and> j < fin \<longrightarrow>
            perpendicularDistance (points ! j) (points ! start) (points ! fin)
              \<le> fst (farthest points start fin))"
proof -
  let ?d = "\<lambda>j. perpendicularDistance (points ! j) (points ! start) (points ! fin)"
  let ?is = "[Suc start ..< fin]"
  let ?r = "fold (farthestStep points start fin) ?is (0, start)"
  have r: "farthest points start fin = ?r" by (simp add: farthest_def)
  have "?r \<noteq> (0, start)" using ne r by auto
  with farthest_fold_char [of points start fin ?is "(0, start)"] obtain pre k post where
    dec: "?is = pre @ k # post" and res: "?r = (?d k, k)" and
    before: "\<forall>j \<in> set pre. ?d j < ?d k" and pos: "0 < ?d k"
    by auto
  have k: "start < k" "k < fin"
  proof -
    have "k \<in> set ?is" using dec by simp
    then show "start < k" "k < fin" by auto
  qed
  have pre: "j \<in> set pre" if "start < j" "j < k" for j
  proof -
    have "j \<in> set ?is" using that k by simp
    then have "j \<in> set (pre @ k # post)" by (simp only: dec)
    then have "j \<in> set pre \<or> j = k \<or> j \<in> set post" by auto
    moreover have "sorted_wrt (<) (pre @ k # post)" using dec sorted_wrt_upt [of "Suc start" fin] by simp
    then have "\<forall>y \<in> set post. k < y" by (simp add: sorted_wrt_append)
    ultimately show ?thesis using that by auto
  qed
  have upper: "?d j \<le> ?d k" if "start < j" "j < fin" for j
  proof -
    have "j \<in> set ?is" using that by simp
    from farthest_fold_upper [OF this, of points start fin "(0, start)"] res show ?thesis by simp
  qed
  show ?thesis using r res k before pos pre upper by auto
qed

lemma farthest_determined:
  assumes k: "start < k" "k < fin"
    and pos: "0 < perpendicularDistance (points ! k) (points ! start) (points ! fin)"
    and before: "\<forall>j. start < j \<and> j < k \<longrightarrow>
          perpendicularDistance (points ! j) (points ! start) (points ! fin)
            < perpendicularDistance (points ! k) (points ! start) (points ! fin)"
    and after: "\<forall>j. k < j \<and> j < fin \<longrightarrow>
          perpendicularDistance (points ! j) (points ! start) (points ! fin)
            \<le> perpendicularDistance (points ! k) (points ! start) (points ! fin)"
  shows "farthest points start fin
           = (perpendicularDistance (points ! k) (points ! start) (points ! fin), k)"
proof -
  let ?d = "\<lambda>j. perpendicularDistance (points ! j) (points ! start) (points ! fin)"
  let ?f = "farthestStep points start fin"
  have "[Suc start ..< k + (fin - k)] = [Suc start ..< k] @ [k ..< k + (fin - k)]"
    by (rule upt_add_eq_append) (use k in simp)
  then have dec: "[Suc start ..< fin] = [Suc start ..< k] @ k # [Suc k ..< fin]"
    using k by (simp add: upt_conv_Cons)
  let ?a = "fold ?f [Suc start ..< k] (0, start)"
  have "fst ?a < ?d k"
    by (rule farthest_fold_below) (use pos before in auto)
  then have "?f k ?a = (?d k, k)" by (simp add: farthestStep_def Let_def)
  moreover have "fold ?f [Suc k ..< fin] (?d k, k) = (?d k, k)"
    by (rule farthest_fold_stay) (use after in auto)
  ultimately show ?thesis by (simp add: farthest_def dec)
qed

lemma rdp_resimplify:
  assumes "rdp C s e eps = Inr S" "eps' \<le> eps"
    "take (Suc (length S)) (drop i Q) = S @ [C ! e]"
  shows "rdp Q i (i + length S) eps' = Inr S"
  using assms
proof (induction C s e eps arbitrary: S i rule: rdp.induct)
  case (1 points start fin eps)
  have len: "length Q \<ge> i + Suc (length S)"
  proof (rule ccontr)
    assume "\<not> ?thesis"
    then have "length (take (Suc (length S)) (drop i Q)) < Suc (length S)" by simp
    then show False using "1.prems"(3) by simp
  qed
  have nth: "Q ! (i + t) = (S @ [points ! fin]) ! t" if "t \<le> length S" for t
  proof -
    have "(S @ [points ! fin]) ! t = take (Suc (length S)) (drop i Q) ! t"
      using "1.prems"(3) by simp
    also have "\<dots> = drop i Q ! t" using that by simp
    also have "\<dots> = Q ! (i + t)" using len that by simp
    finally show ?thesis by simp
  qed
  have leaf: "rdp Q i (i + length S) eps' = Inr S" if "S = [points ! start]"
  proof -
    have "Q ! i = points ! start" using nth [of 0] that by simp
    then show ?thesis using that by (simp add: rdp_base)
  qed
  show ?case
  proof (cases "fin - start < 2")
    case True
    then show ?thesis using "1.prems" leaf by (auto simp: rdp_base)
  next
    case far: False
    show ?thesis
    proof (cases "fst (farthest points start fin) > eps")
      case False
      then show ?thesis using "1.prems" far leaf by (auto simp: rdp_flat)
    next
      case big: True
      show ?thesis
      proof (cases "snd (farthest points start fin) = start")
        case True
        then show ?thesis using "1.prems" far big by (simp add: rdp_loop)
      next
        case ne: False
        let ?m = "snd (farthest points start fin)"
        let ?D = "fst (farthest points start fin)"
        from "1.prems"(1) far big ne obtain l r where
          l: "rdp points start ?m eps = Inr l" and
          r: "rdp points ?m fin eps = Inr r" and
          S: "S = l @ r"
          by (auto simp: rdp_split split: sum.splits)
        from rdp_shape [OF l] obtain l' where
          l': "l = points ! start # l'"
              "\<forall>p \<in> set l'. \<exists>j. start < j \<and> j < ?m \<and> p = points ! j" by blast
        from rdp_shape [OF r] obtain r' where
          r': "r = points ! ?m # r'"
              "\<forall>p \<in> set r'. \<exists>j. ?m < j \<and> j < fin \<and> p = points ! j" by blast
        note ch = farthest_char [OF ne]
        have m: "start < ?m" "?m < fin" using ch by simp_all
        have chD: "?D = perpendicularDistance (points ! ?m) (points ! start) (points ! fin)"
          using ch by simp
        have chpos: "0 < ?D" using ch by simp
        have chbefore: "perpendicularDistance (points ! j) (points ! start) (points ! fin) < ?D"
          if "start < j" "j < ?m" for j using ch that by blast
        have chupper: "perpendicularDistance (points ! j) (points ! start) (points ! fin) \<le> ?D"
          if "start < j" "j < fin" for j using ch that by blast
        let ?W = "S @ [points ! fin]"
        have W: "?W = points ! start # l' @ points ! ?m # r' @ [points ! fin]"
          using S l'(1) r'(1) by simp
        have lenS: "length S = Suc (length l') + Suc (length r')" using S l'(1) r'(1) by simp
        let ?k = "i + length l"
        let ?b = "i + length S"
        have Qi: "Q ! i = points ! start" using nth [of 0] W by simp
        have Qb: "Q ! ?b = points ! fin" using nth [of "length S"] by simp
        have Qk: "Q ! ?k = points ! ?m"
          using nth [of "length l"] S l'(1) r'(1) by (simp add: nth_append)
        have Qbefore: "\<exists>j. start < j \<and> j < ?m \<and> Q ! t = points ! j" if "i < t" "t < ?k" for t
        proof -
          define u where "u = t - Suc i"
          have u0: "t = i + Suc u" using that(1) by (simp add: u_def)
          have u: "u < length l'" using that(2) l'(1) unfolding u0 by simp
          have "Suc u \<le> length S" using u lenS by simp
          from nth [OF this] have "Q ! t = ?W ! Suc u" unfolding u0 .
          also have "\<dots> = l' ! u" unfolding W using u by (simp add: nth_append)
          finally have "Q ! t \<in> set l'" using u by simp
          then show ?thesis using l'(2) by blast
        qed
        have Qafter: "\<exists>j. ?m < j \<and> j < fin \<and> Q ! t = points ! j" if "?k < t" "t < ?b" for t
        proof -
          define u where "u = t - Suc (i + length l)"
          have u0: "t = i + length l + Suc u" using that(1) by (simp add: u_def)
          have u: "u < length r'" using that(2) lenS l'(1) unfolding u0 by simp
          have "length l + Suc u \<le> length S" using u lenS l'(1) by simp
          from nth [OF this] have "Q ! t = ?W ! (length l + Suc u)"
            unfolding u0 by (simp only: add.assoc)
          also have "\<dots> = (r @ [points ! fin]) ! Suc u"
            using S by (simp only: append_assoc nth_append_length_plus)
          also have "\<dots> = r' ! u" unfolding r'(1) using u by (simp add: nth_append)
          finally have "Q ! t \<in> set r'" using u by simp
          then show ?thesis using r'(2) by blast
        qed
        let ?dQ = "\<lambda>t. perpendicularDistance (Q ! t) (Q ! i) (Q ! ?b)"
        have dk: "?dQ ?k = ?D" using Qi Qb Qk chD by simp
        have far': "farthest Q i ?b = (?dQ ?k, ?k)"
        proof (rule farthest_determined)
          show "i < ?k" using l'(1) by simp
          show "?k < ?b" using S r'(1) by simp
          show "0 < ?dQ ?k" using dk chpos by simp
          show "\<forall>j. i < j \<and> j < ?k \<longrightarrow> ?dQ j < ?dQ ?k"
          proof (intro allI impI)
            fix t assume "i < t \<and> t < ?k"
            then obtain j where "start < j" "j < ?m" "Q ! t = points ! j" using Qbefore by blast
            then show "?dQ t < ?dQ ?k" using dk chbefore [of j] Qi Qb by simp
          qed
          show "\<forall>j. ?k < j \<and> j < ?b \<longrightarrow> ?dQ j \<le> ?dQ ?k"
          proof (intro allI impI)
            fix t assume "?k < t \<and> t < ?b"
            then obtain j where "?m < j" "j < fin" "Q ! t = points ! j" using Qafter by blast
            then show "?dQ t \<le> ?dQ ?k" using dk chupper [of j] m Qi Qb by simp
          qed
        qed
        have take_l: "take (Suc (length l)) (drop i Q) = l @ [points ! ?m]"
        proof -
          have "take (Suc (length l)) (drop i Q)
                  = take (Suc (length l)) (take (Suc (length S)) (drop i Q))"
            using S by (simp add: min_def)
          also have "\<dots> = take (Suc (length l)) (l @ r @ [points ! fin])"
            using "1.prems"(3) S by simp
          also have "\<dots> = l @ [points ! ?m]" using r'(1) by simp
          finally show ?thesis .
        qed
        have take_r: "take (Suc (length r)) (drop ?k Q) = r @ [points ! fin]"
        proof -
          have "drop ?k Q = drop (length l) (drop i Q)" by (simp add: add.commute)
          then have "take (Suc (length r)) (drop ?k Q)
                  = drop (length l) (take (Suc (length S)) (drop i Q))"
            using S by (simp add: drop_take)
          also have "\<dots> = r @ [points ! fin]" using "1.prems"(3) S by simp
          finally show ?thesis .
        qed
        have L: "rdp Q i ?k eps' = Inr l"
          using "1.IH"(1) [OF far refl refl big ne l "1.prems"(2) take_l] .
        have R: "rdp Q ?k (?k + length r) eps' = Inr r"
          using "1.IH"(2) [OF far refl refl big ne l r "1.prems"(2) take_r] .
        have sndf: "snd (farthest Q i ?b) = ?k" using far' by simp
        have sp: "rdp Q i ?b eps' =
            (case rdp Q i (snd (farthest Q i ?b)) eps' of Inl e \<Rightarrow> Inl e
             | Inr left \<Rightarrow> (case rdp Q (snd (farthest Q i ?b)) ?b eps' of Inl e \<Rightarrow> Inl e
                             | Inr right \<Rightarrow> Inr (left @ right)))"
        proof (rule rdp_split)
          show "\<not> ?b - i < 2" using lenS by simp
          show "fst (farthest Q i ?b) > eps'" using far' dk big "1.prems"(2) by simp
          show "snd (farthest Q i ?b) \<noteq> i" using far' l'(1) by simp
        qed
        have kb: "?k + length r = ?b" using S by simp
        from sp [unfolded sndf] L R [unfolded kb] S show ?thesis by simp
      qed
    qed
  qed
qed

lemma sqrt_100: "sqrt 100 = (10::real)"
  using real_sqrt_abs [of 10] by simp

lemma perpendicularDistance_num:
  "0 < chordSq a b \<Longrightarrow>
   perpendicularDistance p a b = real_of_int (distNum p a b) / sqrt (real_of_int (chordSq a b))"
  by (auto simp: perpendicularDistance_def distNum_def chordSq_def Let_def)

lemma farthest_fold_num:
  assumes "0 < chordSq (points ! start) (points ! fin)"
  shows "fold (farthestStep points start fin) is
           (real_of_int m / sqrt (real_of_int (chordSq (points ! start) (points ! fin))), k)
         = (real_of_int (fst (fold (\<lambda>i acc. let d = distNum (points ! i) (points ! start) (points ! fin)
                    in if d > fst acc then (d, i) else acc) is (m, k)))
              / sqrt (real_of_int (chordSq (points ! start) (points ! fin))),
            snd (fold (\<lambda>i acc. let d = distNum (points ! i) (points ! start) (points ! fin)
                    in if d > fst acc then (d, i) else acc) is (m, k)))"
proof (induction "is" arbitrary: m k)
  case Nil
  then show ?case by simp
next
  case (Cons i "is")
  let ?c = "sqrt (real_of_int (chordSq (points ! start) (points ! fin)))"
  let ?d = "distNum (points ! i) (points ! start) (points ! fin)"
  have c: "0 < ?c" using assms by simp
  have step: "farthestStep points start fin i (real_of_int m / ?c, k)
        = (if ?d > m then (real_of_int ?d / ?c, i) else (real_of_int m / ?c, k))"
    using c by (simp add: farthestStep_def Let_def perpendicularDistance_num [OF assms]
        divide_less_cancel)
  show ?case
  proof (cases "?d > m")
    case True
    then show ?thesis using step Cons.IH [of ?d i] by (simp add: Let_def)
  next
    case False
    then show ?thesis using step Cons.IH [of m k] by (simp add: Let_def)
  qed
qed

lemma farthest_num:
  "0 < chordSq (points ! start) (points ! fin) \<Longrightarrow>
   farthest points start fin
     = (real_of_int (fst (farthestNum points start fin))
          / sqrt (real_of_int (chordSq (points ! start) (points ! fin))),
        snd (farthestNum points start fin))"
  using farthest_fold_num [of points start fin "[Suc start ..< fin]" 0 start]
  by (simp add: farthest_def farthestNum_def)

lemma bend_far: "farthestNum bend 0 14 = (48, 8)" "farthestNum bend 0 8 = (0, 0)"
   "farthestNum bend 8 14 = (0, 8)"
  by code_simp+

lemma bend_chord: "chordSq (bend ! 0) (bend ! 14) = 100" "chordSq (bend ! 0) (bend ! 8) = 64"
  "chordSq (bend ! 8) (bend ! 14) = 36"
  by code_simp+

lemma bend_farthest:
  "farthest bend 0 14 = (48 / sqrt 100, 8)"
  "farthest bend 0 8 = (0, 0)"
  "farthest bend 8 14 = (0, 8)"
  by (simp_all add: farthest_num bend_far bend_chord)

lemma bend_nth: "bend ! 0 = Point 0 0" "bend ! 8 = Point 8 0" "bend ! 14 = Point 8 6" "length bend = 15"
  by (simp_all add: bend_def)

lemma bend_rdp5: "rdp bend 0 14 5 = Inr [Point 0 0]"
  by (simp add: rdp_flat bend_farthest sqrt_100 bend_nth)

lemma bend_rdp1: "rdp bend 0 14 1 = Inr [Point 0 0, Point 8 0]"
  by (simp add: rdp_split rdp_flat bend_farthest sqrt_100 bend_nth)




lemma bend_approx5: "approximatePolygon bend 5 = Inr bend"
  by (simp add: approximatePolygon_def bend_rdp5 bend_nth)

lemma bend_approx1: "approximatePolygon bend 1 = Inr [Point 0 0, Point 8 0, Point 8 6]"
  by (simp add: approximatePolygon_def bend_rdp1 bend_nth)



text \<open>
  Claim C8, amended.  Let \<open>P\<close> be what \<open>approximatePolygon\<close> returns on a contour \<open>C\<close> at
  tolerance \<open>eps\<close>, and \<open>eps' \<le> eps\<close>.  Then \<open>approximatePolygon\<close> at \<open>eps'\<close> returns
  \<open>P\<close> on \<open>P\<close>, provided \<open>P\<close> is not a contour of three or more points handed back
  because the simplification had fewer than 3 points (the recursion kept at least 2
  points, or \<open>C\<close> has fewer than 3); a contour handed back that way is a fixed point at
  \<open>eps' = eps\<close>.
\<close>

theorem approximatePolygon_fixed_point:
  assumes "approximatePolygon C eps = Inr P" and "eps' \<le> eps"
    and "length C < 3 \<or> eps' = eps \<or> (\<exists>S. rdp C 0 (length C - 1) eps = Inr S \<and> 2 \<le> length S)"
  shows "approximatePolygon P eps' = Inr P"
proof (cases "length C < 3")
  case True
  then show ?thesis using assms(1) by (auto simp: approximatePolygon_def)
next
  case long: False
  from assms(1) long obtain S where S: "rdp C 0 (length C - 1) eps = Inr S"
    by (auto simp: approximatePolygon_def split: sum.splits)
  let ?last = "C ! (length C - 1)"
  show ?thesis
  proof (cases "2 \<le> length S")
    case True
    then have P: "P = S @ [?last]"
      using assms(1) long S by (simp add: approximatePolygon_def Let_def)
    have "take (Suc (length S)) (drop 0 P) = S @ [?last]" using P by simp
    from rdp_resimplify [OF S assms(2) this] have "rdp P 0 (length P - 1) eps' = Inr S"
      using P by simp
    moreover have "P ! (length P - 1) = ?last" using P by simp
    ultimately show ?thesis using True P by (simp add: approximatePolygon_def Let_def)
  next
    case False
    then have P: "P = C" using assms(1) long S by (simp add: approximatePolygon_def Let_def)
    from False assms(3) long S have "eps' = eps" by auto
    then show ?thesis using assms(1) P by simp
  qed
qed

text \<open>
  Witness for claim C8: \<open>bend\<close> at tolerance 1 is simplified to three points, which
  tolerance \<open>1 / 2\<close> leaves as they are.
\<close>

theorem approximatePolygon_fixed_point_witness:
  "approximatePolygon bend 1 = Inr [Point 0 0, Point 8 0, Point 8 6] \<and> (1 / 2 :: real) \<le> 1 \<and>
   rdp bend 0 (length bend - 1) 1 = Inr [Point 0 0, Point 8 0] \<and>
   approximatePolygon [Point 0 0, Point 8 0, Point 8 6] (1 / 2)
     = Inr [Point 0 0, Point 8 0, Point 8 6]"
proof -
  have r: "rdp bend 0 (length bend - 1) 1 = Inr [Point 0 0, Point 8 0]"
    using bend_rdp1 by (simp add: bend_nth)
  then have "\<exists>S. rdp bend 0 (length bend - 1) 1 = Inr S \<and> 2 \<le> length S" by simp
  with approximatePolygon_fixed_point [OF bend_approx1, of "1 / 2"] r bend_approx1
  show ?thesis by simp
qed

text \<open>
  Claim C8 as stated fails on a contour that is handed back unchanged: at tolerance 5 the
  15 points of \<open>bend\<close> are returned as they are, and at the smaller tolerance 1 they
  are simplified to 3 points.
\<close>

theorem approximatePolygon_fixed_point_counterexample:
  "approximatePolygon bend 5 = Inr bend \<and> (1::real) \<le> 5 \<and> approximatePolygon bend 1 \<noteq> Inr bend"
  using bend_approx5 bend_approx1 by (simp add: bend_def)

section \<open>Properties of the duplicate suppressor and of the candidate selector\<close>

lemma calculateIoU_commute: "calculateIoU a b = calculateIoU b a"
  by (simp add: calculateIoU_def Let_def max.commute min.commute add.commute)

lemma set_insertBy: "set (insertBy cmp v ws) = insert v (set ws)"
  by (induction ws) auto

lemma set_sortBy: "set (sortBy cmp vs) = set vs"
  by (induction vs) (simp_all add: sortBy_def set_insertBy)



lemma nmsLoop_set: "set (nmsLoop t queue keep) \<subseteq> set queue \<union> set keep"
  by (induction t queue keep rule: nmsLoop.induct) auto

lemma nmsLoop_apart:
  assumes "sorted_wrt (\<lambda>a b. calculateIoU (boundingBox a) (boundingBox b) \<le> t) keep"
    and "\<forall>k \<in> set keep. \<forall>s \<in> set queue. calculateIoU (boundingBox k) (boundingBox s) \<le> t"
  shows "sorted_wrt (\<lambda>a b. calculateIoU (boundingBox a) (boundingBox b) \<le> t)
           (nmsLoop t queue keep)"
  using assms
proof (induction t queue keep rule: nmsLoop.induct)
  case (1 iouThreshold keep)
  then show ?case by simp
next
  case (2 iouThreshold current rest keep)
  let ?rest = "filter (\<lambda>s. \<not> calculateIoU (boundingBox current) (boundingBox s) > iouThreshold) rest"
  have a: "sorted_wrt (\<lambda>a b. calculateIoU (boundingBox a) (boundingBox b) \<le> iouThreshold)
             (keep @ [current])"
    using "2.prems" by (simp add: sorted_wrt_append)
  have b: "\<forall>k \<in> set (keep @ [current]). \<forall>s \<in> set ?rest.
             calculateIoU (boundingBox k) (boundingBox s) \<le> iouThreshold"
    using "2.prems"(2) by auto
  from "2.IH" [OF a b] show ?case by simp
qed

lemma nonMaxSuppression_apart:
  "sorted_wrt (\<lambda>a b. calculateIoU (boundingBox a) (boundingBox b) \<le> t) (nonMaxSuppression ss t)"
  by (simp add: nonMaxSuppression_def nmsLoop_apart)

lemma nonMaxSuppression_set: "set (nonMaxSuppression ss t) \<subseteq> set ss"
  using nmsLoop_set [of t "sortBy (\<lambda>a b. confidence b - confidence a) ss" "[]"]
  by (auto simp: nonMaxSuppression_def set_sortBy)

lemma apart_nth:
  assumes "sorted_wrt (\<lambda>a b. calculateIoU (boundingBox a) (boundingBox b) \<le> t) r"
    and "i < length r" "j < length r" "i \<noteq> j"
  shows "calculateIoU (boundingBox (r ! i)) (boundingBox (r ! j)) \<le> t"
proof (cases "i < j")
  case True
  then show ?thesis using assms sorted_wrt_nth_less by blast
next
  case False
  then have "j < i" using assms(4) by simp
  then have "calculateIoU (boundingBox (r ! j)) (boundingBox (r ! i)) \<le> t"
    using assms sorted_wrt_nth_less by blast
  then show ?thesis by (simp add: calculateIoU_commute)
qed

lemma detectShapes_shapes:
  "shapes (detectShapes t0 t1 img) = [] \<or>
   (\<exists>found. shapes (detectShapes t0 t1 img) = nonMaxSuppression found 0.5 \<and>
      (\<exists>contours. collectShapes (imgWidth img) (imgHeight img) contours [] = Inr found))"
  by (auto simp: detectShapes_def detectPipeline_def Let_def split: sum.splits)

lemma plausible_simps:
  "plausible None" "plausible (Some (ty, c)) = (c \<le> 0.95 \<and> ty \<noteq> Square)"
  by (simp_all add: plausible_def)

lemma plausible_if:
  "(b \<Longrightarrow> plausible u) \<Longrightarrow> (\<not> b \<Longrightarrow> plausible v) \<Longrightarrow> plausible (if b then u else v)"
  by simp

lemma plausible_case:
  "plausible u \<Longrightarrow> plausible v \<Longrightarrow> plausible (case u of Some r \<Rightarrow> Some r | None \<Rightarrow> v)"
  by (cases u) simp_all

lemma plausible_min:
  "c \<le> 0.95 \<Longrightarrow> ty \<noteq> Square \<Longrightarrow> plausible (Some (ty, min c v))"
  by (simp add: plausible_def min_le_iff_disj)

lemma plausible_const:
  "c \<le> 0.95 \<Longrightarrow> ty \<noteq> Square \<Longrightarrow> plausible (Some (ty, c))"
  by (simp add: plausible_def)

lemma classify_plausible: "plausible (classifyShapeAdvanced approx a p bbox)"
  unfolding classifyShapeAdvanced_def Let_def
  by (intro plausible_if plausible_case plausible_min plausible_const plausible_simps(1))
     simp_all

lemma classify_bounds:
  "classifyShapeAdvanced approx a p bbox = Some r \<Longrightarrow> snd r \<le> 0.95 \<and> fst r \<noteq> Square"
  using classify_plausible [of approx a p bbox] by (simp add: plausible_def)

lemma selectBest_bounds:
  assumes "selectBest contour a p es best = Inr res"
    and "case fst best of None \<Rightarrow> True | Some b \<Rightarrow> fst (snd b) \<le> 0.95 \<and> fst b \<noteq> Square"
  shows "case fst res of None \<Rightarrow> True | Some b \<Rightarrow> fst (snd b) \<le> 0.95 \<and> fst b \<noteq> Square"
  using assms
proof (induction es arbitrary: best)
  case Nil
  then show ?case by simp
next
  case (Cons eps rest)
  from Cons.prems(1) obtain approx where
    ap: "approximatePolygon contour (eps * p) = Inr approx"
    by (auto split: sum.splits)
  show ?case
  proof (cases "length approx < 3")
    case True
    with Cons.prems ap have "selectBest contour a p rest best = Inr res" by simp
    from Cons.IH [OF this Cons.prems(2)] show ?thesis .
  next
    case False
    show ?thesis
    proof (cases "classifyShapeAdvanced approx a p (getBoundingBox approx)")
      case None
      with Cons.prems ap False have "selectBest contour a p rest best = Inr res" by simp
      from Cons.IH [OF this Cons.prems(2)] show ?thesis .
    next
      case (Some info)
      note cb = classify_bounds [OF Some]
      show ?thesis
      proof (cases "snd info + vertexBonus (length approx) > snd best")
        case True
        with Cons.prems ap False Some have
          "selectBest contour a p rest
             (Some (fst info, snd info, approx), snd info + vertexBonus (length approx)) = Inr res"
          by (simp add: Let_def)
        from Cons.IH [OF this] cb show ?thesis by simp
      next
        case no: False
        with Cons.prems ap False Some have "selectBest contour a p rest best = Inr res"
          by (simp add: Let_def)
        from Cons.IH [OF this Cons.prems(2)] show ?thesis .
      qed
    qed
  qed
qed

lemma detectContour_admissible:
  assumes "detectContour width height contour = Inr (Some s)"
  shows "admissible s"
proof -
  from assms obtain best bestShape where
    sel: "selectBest contour (calculateArea contour) (calculatePerimeter contour) epsilons (None, 0)
            = Inr best" and
    b: "fst best = Some bestShape" and
    c: "fst (snd bestShape) \<ge> 0.55" and
    s: "s = \<lparr>shapeType = fst bestShape, confidence = fst (snd bestShape),
              boundingBox = getBoundingBox (snd (snd bestShape)),
              center = calculateCentroid (snd (snd bestShape)),
              area = jsRound (calculateArea contour)\<rparr>"
    by (auto simp: detectContour_def Let_def split: if_splits sum.splits option.splits)
  from selectBest_bounds [OF sel] b have "fst (snd bestShape) \<le> 0.95 \<and> fst bestShape \<noteq> Square"
    by simp
  then show ?thesis using c s by (simp add: admissible_def)
qed

lemma collectShapes_admissible:
  assumes "collectShapes width height contours acc = Inr found" "\<forall>s \<in> set acc. admissible s"
  shows "\<forall>s \<in> set found. admissible s"
  using assms
proof (induction contours arbitrary: acc)
  case Nil
  then show ?case by simp
next
  case (Cons contour rest)
  from Cons.prems(1) obtain r where r: "detectContour width height contour = Inr r"
    by (auto split: sum.splits)
  show ?case
  proof (cases r)
    case None
    with Cons.prems r have "collectShapes width height rest acc = Inr found" by simp
    from Cons.IH [OF this Cons.prems(2)] show ?thesis .
  next
    case (Some shape)
    with Cons.prems r have "collectShapes width height rest (acc @ [shape]) = Inr found" by simp
    moreover have "\<forall>s \<in> set (acc @ [shape]). admissible s"
      using Cons.prems(2) detectContour_admissible r Some by auto
    ultimately show ?thesis by (rule Cons.IH)
  qed
qed

lemma detectShapes_admissible:
  assumes "s \<in> set (shapes (detectShapes startTime endTime imageData))"
  shows "admissible s"
proof -
  from detectShapes_shapes [of startTime endTime imageData] assms obtain found contours where
    f: "shapes (detectShapes startTime endTime imageData) = nonMaxSuppression found 0.5"
       "collectShapes (imgWidth imageData) (imgHeight imageData) contours [] = Inr found"
    by auto
  have "s \<in> set found" using assms f(1) nonMaxSuppression_set by auto
  moreover have "\<forall>s \<in> set found. admissible s"
    by (rule collectShapes_admissible [OF f(2)]) simp
  ultimately show ?thesis by blast
qed

lemma detectShapes_apart:
  "sorted_wrt (\<lambda>a b. calculateIoU (boundingBox a) (boundingBox b) \<le> 0.5)
     (shapes (detectShapes startTime endTime imageData))"
proof -
  from detectShapes_shapes [of startTime endTime imageData] consider
    "shapes (detectShapes startTime endTime imageData) = []" |
    found where "shapes (detectShapes startTime endTime imageData) = nonMaxSuppression found 0.5"
    by blast
  then show ?thesis
  proof cases
    case 1
    then show ?thesis by simp
  next
    case 2
    show ?thesis unfolding 2 by (rule nonMaxSuppression_apart)
  qed
qed

section \<open>The comparator of the hull sort\<close>

lemma atan2_pos: "0 < v \<Longrightarrow> atan2 v u = pi / 2 - arctan (u / v)"
proof -
  assume v: "0 < v"
  consider "0 < u" | "u < 0" | "u = 0" by linarith
  then show ?thesis
  proof cases
    case 1
    then have "u / v \<noteq> 0" using v by simp
    from arctan_inverse [OF this] have "arctan (v / u) = pi / 2 - arctan (u / v)"
      using 1 v by (simp add: sgn_if)
    then show ?thesis using 1 by (simp add: atan2_def)
  next
    case 2
    then have neg: "u / v < 0" using v by (simp add: divide_neg_pos)
    have "u / v \<noteq> 0" using 2 v by simp
    from arctan_inverse [OF this] neg 2 v have "arctan (v / u) = - (pi / 2) - arctan (u / v)"
      by (simp add: sgn_if)
    then show ?thesis using 2 v by (simp add: atan2_def)
  next
    case 3
    then show ?thesis using v by (simp add: atan2_def)
  qed
qed

lemma atan2_zero: "0 \<le> u \<Longrightarrow> atan2 0 u = 0"
  by (simp add: atan2_def)

lemma atan2_pos_gt0: "0 < v \<Longrightarrow> 0 < atan2 v u"
  using arctan_ubound [of "u / v"] by (simp add: atan2_pos)

lemma hullCompare_le:
  assumes "notBefore start a" "notBefore start b"
  shows "(hullCompare start a b \<le> 0) = hullBefore start a b"
proof -
  define ax ay bx by' where "ax = px a - px start" and "ay = py a - py start"
    and "bx = px b - px start" and "by' = py b - py start"
  have ay: "0 \<le> ay" "ay = 0 \<Longrightarrow> 0 \<le> ax" using assms(1) by (auto simp: notBefore_def ay_def ax_def)
  have by': "0 \<le> by'" "by' = 0 \<Longrightarrow> 0 \<le> bx" using assms(2) by (auto simp: notBefore_def by'_def bx_def)
  let ?A = "atan2 (real_of_int ay) (real_of_int ax)"
  let ?B = "atan2 (real_of_int by') (real_of_int bx)"
  define da db where "da = ax * ax + ay * ay" and "db = bx * bx + by' * by'"
  have hc: "hullCompare start a b =
      (if ?A \<noteq> ?B then ?A - ?B else real_of_int da - real_of_int db)"
    by (simp add: hullCompare_def Let_def ax_def ay_def bx_def by'_def da_def db_def
        power2_eq_square)
  have hb: "hullBefore start a b =
      (if ay = 0 \<and> by' = 0 then da \<le> db
       else if ay = 0 then True else if by' = 0 then False
       else ax * by' - ay * bx > 0 \<or> (ax * by' - ay * bx = 0 \<and> da \<le> db))"
    by (simp add: hullBefore_def Let_def ax_def ay_def bx_def by'_def da_def db_def)
  consider "ay = 0" "by' = 0" | "ay = 0" "0 < by'" | "0 < ay" "by' = 0" | "0 < ay" "0 < by'"
    using ay(1) by'(1) by linarith
  then show ?thesis
  proof cases
    case 1
    then have "?A = 0" "?B = 0" using ay(2) by'(2) by (simp_all add: atan2_zero)
    then show ?thesis using 1 hc hb by simp
  next
    case 2
    then have "?A = 0" using ay(2) by (simp add: atan2_zero)
    moreover have "0 < ?B" using 2 by (simp add: atan2_pos_gt0)
    ultimately show ?thesis using 2 hc hb by simp
  next
    case 3
    then have "?B = 0" using by'(2) by (simp add: atan2_zero)
    moreover have "0 < ?A" using 3 by (simp add: atan2_pos_gt0)
    ultimately show ?thesis using 3 hc hb by simp
  next
    case 4
    have A: "?A = pi / 2 - arctan (real_of_int ax / real_of_int ay)"
      using 4 by (simp add: atan2_pos)
    have B: "?B = pi / 2 - arctan (real_of_int bx / real_of_int by')"
      using 4 by (simp add: atan2_pos)
    have q: "(real_of_int bx / real_of_int by' \<le> real_of_int ax / real_of_int ay)
               = (bx * ay \<le> ax * by')"
    proof -
      have "(real_of_int bx / real_of_int by' \<le> real_of_int ax / real_of_int ay)
              = (real_of_int bx * real_of_int ay \<le> real_of_int ax * real_of_int by')"
        using 4 by (simp add: field_simps)
      also have "\<dots> = (bx * ay \<le> ax * by')"
        by (metis of_int_le_iff of_int_mult)
      finally show ?thesis .
    qed
    have e: "(real_of_int bx / real_of_int by' = real_of_int ax / real_of_int ay)
               = (bx * ay = ax * by')"
    proof -
      have "(real_of_int bx / real_of_int by' = real_of_int ax / real_of_int ay)
              = (real_of_int bx * real_of_int ay = real_of_int ax * real_of_int by')"
        using 4 by (simp add: field_simps)
      also have "\<dots> = (bx * ay = ax * by')"
        by (metis of_int_eq_iff of_int_mult)
      finally show ?thesis .
    qed
    have eqAB: "(?A = ?B) = (bx * ay = ax * by')"
      unfolding A B using e by (auto simp: arctan_eq_iff)
    have leAB: "(?A - ?B \<le> 0) = (bx * ay \<le> ax * by')"
      unfolding A B using q by (simp add: arctan_le_iff)
    show ?thesis
    proof (cases "bx * ay = ax * by'")
      case True
      then have "?A = ?B" using eqAB by simp
      then show ?thesis using True 4 hc hb by (simp add: mult.commute)
    next
      case False
      then have "?A \<noteq> ?B" using eqAB by simp
      then have "(hullCompare start a b \<le> 0) = (bx * ay \<le> ax * by')" using hc leAB by simp
      then show ?thesis using False 4 hb by (auto simp: mult.commute)
    qed
  qed
qed

section \<open>A square outline, step by step\<close>

lemma ring_far:
  "farthestNum ring 0 31 = (8, 8)" "farthestNum ring 0 8 = (0, 0)"
  "farthestNum ring 8 31 = (64, 16)" "farthestNum ring 8 16 = (0, 8)"
  "farthestNum ring 16 31 = (56, 24)" "farthestNum ring 16 24 = (0, 16)"
  "farthestNum ring 24 31 = (0, 24)"
  by code_simp+

lemma ring_chord:
  "chordSq (ring ! 0) (ring ! 31) = 1" "chordSq (ring ! 0) (ring ! 8) = 64"
  "chordSq (ring ! 8) (ring ! 31) = 65" "chordSq (ring ! 8) (ring ! 16) = 64"
  "chordSq (ring ! 16) (ring ! 31) = 113" "chordSq (ring ! 16) (ring ! 24) = 64"
  "chordSq (ring ! 24) (ring ! 31) = 49"
  by code_simp+

lemma ring_farthest:
  "farthest ring 0 31 = (8, 8)" "farthest ring 0 8 = (0, 0)"
  "farthest ring 8 31 = (64 / sqrt 65, 16)" "farthest ring 8 16 = (0, 8)"
  "farthest ring 16 31 = (56 / sqrt 113, 24)" "farthest ring 16 24 = (0, 16)"
  "farthest ring 24 31 = (0, 24)"
  by (simp_all add: farthest_num ring_far ring_chord)

lemma ring_nth:
  "ring ! 0 = Point 9 1" "ring ! 8 = Point 1 1" "ring ! 16 = Point 1 9" "ring ! 24 = Point 9 9"
  "ring ! 31 = Point 9 2" "length ring = 32"
  by (simp_all add: ring_def)

lemma sqrt_bounds: "5 < 64 / sqrt 65" "5 < 56 / sqrt 113"
proof -
  have "sqrt 65 < 9" by (rule real_less_lsqrt) simp_all
  then have "64 / 9 < 64 / sqrt 65" by (intro divide_strict_left_mono) simp_all
  then show "5 < 64 / sqrt 65" by simp
  have "sqrt 113 < 11" by (rule real_less_lsqrt) simp_all
  then have "56 / 11 < 56 / sqrt 113" by (intro divide_strict_left_mono) simp_all
  then show "5 < 56 / sqrt 113" by simp
qed

lemma ring_rdp:
  assumes "0 \<le> eps" "eps \<le> 5"
  shows "rdp ring 0 31 eps = Inr [Point 9 1, Point 1 1, Point 1 9, Point 9 9]"
proof -
  have a: "rdp ring 0 8 eps = Inr [Point 9 1]"
    using assms by (simp add: rdp_flat ring_farthest ring_nth)
  have b: "rdp ring 8 16 eps = Inr [Point 1 1]"
    using assms by (simp add: rdp_flat ring_farthest ring_nth)
  have c: "rdp ring 16 24 eps = Inr [Point 1 9]"
    using assms by (simp add: rdp_flat ring_farthest ring_nth)
  have d: "rdp ring 24 31 eps = Inr [Point 9 9]"
    using assms by (simp add: rdp_flat ring_farthest ring_nth)
  have e: "rdp ring 16 31 eps = Inr [Point 1 9, Point 9 9]"
    using assms sqrt_bounds c d by (simp add: rdp_split ring_farthest)
  have f: "rdp ring 8 31 eps = Inr [Point 1 1, Point 1 9, Point 9 9]"
    using assms sqrt_bounds b e by (simp add: rdp_split ring_farthest)
  show ?thesis
    using assms a f by (simp add: rdp_split ring_farthest)
qed

lemma ring_approx:
  assumes "0 \<le> eps" "eps \<le> 5"
  shows "approximatePolygon ring eps = Inr ringPolygon"
  using ring_rdp [OF assms] by (simp add: approximatePolygon_def ring_nth ringPolygon_def)

lemma ring_area: "calculateArea ring = 64"
  by (simp add: calculateArea_def ring_def)

lemma ring_perimeter: "calculatePerimeter ring = 32"
  by (simp add: calculatePerimeter_def ring_def)

lemma ring_box: "getBoundingBox ring = \<lparr>bbX = 1, bbY = 1, bbWidth = 8, bbHeight = 8\<rparr>"
  by (simp add: ring_def)

lemma ringPolygon_box: "getBoundingBox ringPolygon = \<lparr>bbX = 1, bbY = 1, bbWidth = 8, bbHeight = 8\<rparr>"
  by (simp add: ringPolygon_def)

lemma ringPolygon_sorted:
  "sortBy (hullCompare (Point 1 1)) ringPolygon
     = [Point 1 1, Point 9 1, Point 9 2, Point 9 9, Point 1 9]"
  by (simp add: sortBy_def ringPolygon_def hullCompare_le notBefore_def hullBefore_def)

lemma ringPolygon_hull: "convexHull ringPolygon = [Point 1 1, Point 9 1, Point 9 9, Point 1 9]"
proof -
  have "fold (\<lambda>point start.
                       if py point < py start \<or> (py point = py start \<and> px point < px start)
                       then point else start) ringPolygon (ringPolygon ! 0) = Point 1 1"
    by (simp add: ringPolygon_def)
  moreover have "length ringPolygon = 5" by (simp add: ringPolygon_def)
  ultimately show ?thesis
    by (simp add: convexHull_def ringPolygon_sorted hullPop.simps crossProduct_def)
qed

lemma pi_gt_three: "3 < pi"
proof -
  let ?y = "pi / 12"
  have y: "0 < ?y" "?y < pi" by simp_all
  have s0: "0 < sin ?y" by (rule sin_gt_zero) (use y in simp_all)
  have s1: "sin ?y \<le> ?y" by (rule sin_x_le_x) simp
  have "cos ?y < cos 0" by (rule cos_monotone_0_pi) (use y in simp_all)
  then have c1: "cos ?y < 1" by simp
  have "sin (pi / 6) = 2 * sin ?y * cos ?y"
    using sin_double [of ?y] by simp
  then have "1 / 2 = 2 * sin ?y * cos ?y" by (simp add: sin_30)
  also have "\<dots> < 2 * sin ?y * 1"
    using s0 c1 by (intro mult_strict_left_mono) simp_all
  also have "\<dots> \<le> 2 * ?y" using s1 by simp
  finally show ?thesis by simp
qed

lemma ringPolygon_classify:
  "classifyShapeAdvanced ringPolygon 64 32 \<lparr>bbX = 1, bbY = 1, bbWidth = 8, bbHeight = 8\<rparr>
     = Some (Rectangle, 0.9)"
proof -
  have h: "calculateArea (convexHull ringPolygon) = 64"
    by (simp add: ringPolygon_hull calculateArea_def)
  have n: "normalizedAspectOf \<lparr>bbX = 1, bbY = 1, bbWidth = 8, bbHeight = 8\<rparr> = 1"
    by (simp add: normalizedAspectOf_def)
  have l: "length ringPolygon = 5" by (simp add: ringPolygon_def)
  have c: "(4 * pi * 64) / (32 * 32) = pi / 4" by simp
  have p: "pi / 4 > 0.75" using pi_gt_three by simp
  show ?thesis
    unfolding classifyShapeAdvanced_def Let_def h n l c
    using p by simp
qed

lemma ringPolygon_centroid: "calculateCentroid ringPolygon = Point 6 4"
  by (simp add: calculateCentroid_def ringPolygon_def jsRound_def)

lemma ring_selectBest:
  "selectBest ring 64 32 epsilons (None, 0) = Inr (Some (Rectangle, 0.9, ringPolygon), 1)"
proof -
  have l: "length ringPolygon = 5" by (simp add: ringPolygon_def)
  show ?thesis
    by (simp add: epsilons_def ring_approx l ringPolygon_box ringPolygon_classify vertexBonus_def)
qed

lemma ring_detect: "detectContour 11 11 ring = Inr (Some squareShape)"
  by (simp add: detectContour_def ring_nth ring_area ring_perimeter ring_box normalizedAspectOf_def
      ring_selectBest ringPolygon_box ringPolygon_centroid jsRound_def squareShape_def)

lemma laps_area: "calculateArea laps = 503 / 2"
  by code_simp

lemma laps_detect: "detectContour 11 11 laps = Inr None"
proof -
  have "length laps = 121" by code_simp
  then show ?thesis by (simp add: detectContour_def laps_area)
qed

lemma concat_quads_length:
  "\<forall>v \<in> set vs. length (f v) = 4 \<Longrightarrow> length (concat (map f vs)) = 4 * length vs"
  by (induction vs) simp_all

lemma concat_quads_nth:
  "\<forall>v \<in> set vs. length (f v) = 4 \<Longrightarrow> i < length vs \<Longrightarrow> k < 4 \<Longrightarrow>
   concat (map f vs) ! (i * 4 + k) = f (vs ! i) ! k"
proof (induction vs arbitrary: i)
  case Nil
  then show ?case by simp
next
  case (Cons v vs)
  show ?case
  proof (cases i)
    case 0
    then show ?thesis using Cons.prems by (simp add: nth_append)
  next
    case (Suc j)
    then have "concat (map f (v # vs)) ! (i * 4 + k) = concat (map f vs) ! (j * 4 + k)"
      using Cons.prems by (simp add: nth_append)
    also have "\<dots> = f (vs ! j) ! k" using Cons.prems Suc by (intro Cons.IH) simp_all
    finally show ?thesis using Suc by simp
  qed
qed

lemma squareBytes_length: "length squareBytes = 484"
  unfolding squareBytes_def by (subst concat_quads_length) simp_all

lemma squareBytes_nth:
  assumes "i < 121" "k < 4"
  shows "squareBytes ! (i * 4 + k)
           = (if onOutline i then [0, 0, 0, 255] else [255, 255, 255, 255]) ! k"
  unfolding squareBytes_def using assms by (subst concat_quads_nth) simp_all

lemma squareBytes_luma:
  assumes "i < 121"
  shows "luma squareBytes (i * 4) = (if onOutline i then Some 0 else Some 255)"
proof -
  have "squareBytes ! (i * 4) = (if onOutline i then 0 else 255)"
    using squareBytes_nth [OF assms, of 0] by simp
  moreover have "squareBytes ! (i * 4 + 1) = (if onOutline i then 0 else 255)"
    using squareBytes_nth [OF assms, of 1] by simp
  moreover have "squareBytes ! (i * 4 + 2) = (if onOutline i then 0 else 255)"
    using squareBytes_nth [OF assms, of 2] by simp
  ultimately show ?thesis using assms by (simp add: luma_def squareBytes_length)
qed

lemma square_gray:
  "toGrayscale squareBytes 11 11
     = Inr (map (\<lambda>i. if onOutline i then Some 0 else Some 255) [0 ..< 121])"
  by (simp add: toGrayscale_def squareBytes_luma)

lemma clipped_luma:
  assumes "i < 121"
  shows "luma (take 480 squareBytes) (i * 4)
           = (if i = 120 then None else if onOutline i then Some 0 else Some 255)"
proof (cases "i = 120")
  case True
  then show ?thesis by (simp add: luma_def squareBytes_length)
next
  case False
  then have i: "i * 4 + 2 < 480" using assms by simp
  then have "luma (take 480 squareBytes) (i * 4) = luma squareBytes (i * 4)"
    by (simp add: luma_def squareBytes_length)
  then show ?thesis using False squareBytes_luma [OF assms] by simp
qed

lemma clipped_gray:
  "toGrayscale (take 480 squareBytes) 11 11
     = Inr (map (\<lambda>i. if i = 120 then None else if onOutline i then Some 0 else Some 255)
              [0 ..< 121])"
  by (simp add: toGrayscale_def clipped_luma)

lemma square_trace: "traceContours squareMask 11 11 = Inr [laps, ring]"
  by code_simp

lemma histogram_maxVal:
  "(case snd acc of None \<Rightarrow> True | Some m \<Rightarrow> m \<le> 255) \<Longrightarrow>
   (case snd (fold histogramStep gray acc) of None \<Rightarrow> True | Some m \<Rightarrow> m \<le> 255)"
proof (induction gray arbitrary: acc)
  case Nil
  then show ?case by simp
next
  case (Cons g gray)
  have "case snd (histogramStep g acc) of None \<Rightarrow> True | Some m \<Rightarrow> m \<le> 255"
    using Cons.prems by (auto simp: histogramStep_def Let_def split: option.splits)
  from Cons.IH [OF this] show ?case by simp
qed

lemma otsu_search_le:
  "fst best \<le> maxVal \<Longrightarrow> set ts \<subseteq> {0 ..< Suc maxVal} \<Longrightarrow>
   fst (fold (\<lambda>t best. if v t > snd best then (t, v t) else best) ts best) \<le> maxVal"
proof (induction ts arbitrary: best)
  case Nil
  then show ?case by simp
next
  case (Cons t ts)
  show ?case
    unfolding fold_Cons comp_apply
    by (rule Cons.IH) (use Cons.prems in auto)
qed

lemma otsuThreshold_le: "otsuThreshold gray \<le> 255"
proof (cases "snd (fold histogramStep gray (replicate 256 0, Some 0))")
  case None
  then show ?thesis by (simp add: otsuThreshold_def)
next
  case (Some maxVal)
  have "maxVal \<le> 255"
    using histogram_maxVal [of "(replicate 256 0, Some 0)" gray] Some by simp
  moreover have "otsuThreshold gray \<le> maxVal"
    unfolding otsuThreshold_def Some option.case Let_def
    by (rule otsu_search_le [where best = "(0, 0)"]) simp_all
  ultimately show ?thesis by simp
qed

lemma otsuForeground_filter:
  "otsuForeground grayscale otsu = length (filter (\<lambda>g. below g (real otsu)) grayscale)"
proof -
  have "fold (\<lambda>g n. if below g (real otsu) then n + 1 else n) gs k
          = k + length (filter (\<lambda>g. below g (real otsu)) gs)" for gs k
    by (induction gs arbitrary: k) simp_all
  then show ?thesis by (simp add: otsuForeground_def)
qed

lemma binarize_two_levels:
  assumes "\<forall>g \<in> set grayscale. g = None \<or> g = Some 0 \<or> g = Some 255"
  shows "binarize grayscale (chooseThreshold grayscale width height)
           = map (\<lambda>g. if g = Some 0 then 255 else 0) grayscale"
proof -
  let ?t = "chooseThreshold grayscale width height"
  let ?o = "otsuThreshold grayscale"
  have le: "?t \<le> 255"
    using otsuThreshold_le [of grayscale] by (simp add: chooseThreshold_def Let_def)
  have pos: "0 < ?t"
  proof (cases "?o = 0")
    case True
    have "\<not> below g 0" if "g \<in> set grayscale" for g
      using assms that by (auto simp: below_def)
    then have "filter (\<lambda>g. below g 0) grayscale = []" by (simp add: filter_empty_conv)
    then have "otsuForeground grayscale ?o = 0" using True by (simp add: otsuForeground_filter)
    then show ?thesis by (simp add: chooseThreshold_def Let_def)
  next
    case False
    then show ?thesis by (simp add: chooseThreshold_def Let_def)
  qed
  have "below g (real ?t) = (g = Some 0)" if "g \<in> set grayscale" for g
    using assms that le pos by (auto simp: below_def)
  then show ?thesis by (simp add: binarize_def)
qed

lemma square_pipeline: "detectPipeline squareImage = Inr [squareShape]"
proof -
  let ?gray = "map (\<lambda>i. if onOutline i then Some 0 else Some (255::real)) [0 ..< 121]"
  have "binarize ?gray (chooseThreshold ?gray 11 11)
          = map (\<lambda>g. if g = Some 0 then 255 else 0) ?gray"
    by (rule binarize_two_levels) auto
  also have "\<dots> = squareMask" by (simp add: squareMask_def)
  finally have mask: "binarize ?gray (chooseThreshold ?gray 11 11) = squareMask" .
  have nms: "nonMaxSuppression [squareShape] t = [squareShape]" for t
    by (simp add: nonMaxSuppression_def sortBy_def)
  show ?thesis
    by (simp add: detectPipeline_def squareImage_def square_gray mask square_trace
        laps_detect ring_detect nms)
qed

lemma clipped_pipeline: "detectPipeline clippedImage = Inr [squareShape]"
proof -
  let ?gray = "map (\<lambda>i. if i = 120 then None else if onOutline i then Some 0
                           else Some (255::real)) [0 ..< 121]"
  have "binarize ?gray (chooseThreshold ?gray 11 11)
          = map (\<lambda>g. if g = Some 0 then 255 else 0) ?gray"
    by (rule binarize_two_levels) auto
  also have "\<dots> = squareMask" by code_simp
  finally have mask: "binarize ?gray (chooseThreshold ?gray 11 11) = squareMask" .
  have nms: "nonMaxSuppression [squareShape] t = [squareShape]" for t
    by (simp add: nonMaxSuppression_def sortBy_def)
  show ?thesis
    by (simp add: detectPipeline_def clippedImage_def clipped_gray mask square_trace
        laps_detect ring_detect nms)
qed

section \<open>Properties of the contour extractor\<close>

lemma pixel_index:
  assumes "inImage width height p"
  shows "0 \<le> py p * width + px p" "py p * width + px p < width * height"
proof -
  from assms have b: "0 \<le> px p" "px p < width" "0 \<le> py p" "py p < height"
    by (simp_all add: inImage_def)
  then have w: "0 < width" by simp
  show "0 \<le> py p * width + px p" using b w by simp
  have "py p * width + px p < py p * width + width" using b by simp
  also have "\<dots> = (py p + 1) * width" by (simp add: algebra_simps)
  also have "\<dots> \<le> height * width" using b w by (intro mult_right_mono) simp_all
  finally show "py p * width + px p < width * height" by (simp add: mult.commute)
qed

lemma writeAt_length: "length (writeAt arr idx v) = length arr"
  by (simp add: writeAt_def)

lemma writeAt_marks:
  assumes "length visited = nat (width * height)" "inImage width height p"
  shows "marked width (writeAt visited (py p * width + px p) 1) p"
  using pixel_index [OF assms(2)] assms(1)
  by (simp add: marked_def readAt_def writeAt_def)

lemma writeAt_keeps:
  assumes "marked width visited q"
  shows "marked width (writeAt visited idx 1) q"
proof (cases "0 \<le> idx \<and> nat idx = nat (py q * width + px q)")
  case True
  then show ?thesis
    using assms by (auto simp: marked_def readAt_def writeAt_def split: if_splits)
next
  case False
  then show ?thesis
    using assms by (auto simp: marked_def readAt_def writeAt_def split: if_splits)
qed

lemma findNext_inImage:
  assumes "findNext binary width height current dir = Some (next, dir')"
  shows "inImage width height next"
proof -
  let ?P = "\<lambda>i. let checkDir = (dir + i) mod 8;
                       nx = px current + fst (directions ! checkDir);
                       ny = py current + snd (directions ! checkDir)
                   in nx \<ge> 0 \<and> nx < width \<and> ny \<ge> 0 \<and> ny < height
                      \<and> readAt binary (ny * width + nx) = Some 255"
  from assms obtain i where f: "List.find ?P [0 ..< 8] = Some i"
    and n: "next = Point (px current + fst (directions ! ((dir + i) mod 8)))
                         (py current + snd (directions ! ((dir + i) mod 8)))"
    by (auto simp: findNext_def Let_def split: option.splits)
  from f have "?P i" by (auto simp: find_Some_iff)
  then show ?thesis using n by (simp add: inImage_def Let_def)
qed

lemma borderLoop_stuck:
  "findNext binary width height current dir = None \<Longrightarrow>
   borderLoop binary width height start (visited, contour, current, dir, iterations)
     = (writeAt visited (py current * width + px current) 1, contour @ [current])"
  by (simp add: borderLoop.simps [of _ _ _ _ visited] Let_def)

lemma borderLoop_stop:
  "findNext binary width height current dir = Some (nxt, dir') \<Longrightarrow>
   (px nxt = px start \<and> py nxt = py start) \<or> \<not> iterations + 1 < width * height \<Longrightarrow>
   borderLoop binary width height start (visited, contour, current, dir, iterations)
     = (writeAt visited (py current * width + px current) 1, contour @ [current])"
  by (auto simp: borderLoop.simps [of _ _ _ _ visited] Let_def)

lemma borderLoop_step:
  "findNext binary width height current dir = Some (nxt, dir') \<Longrightarrow>
   \<not> (px nxt = px start \<and> py nxt = py start) \<Longrightarrow> iterations + 1 < width * height \<Longrightarrow>
   borderLoop binary width height start (visited, contour, current, dir, iterations)
     = borderLoop binary width height start
         (writeAt visited (py current * width + px current) 1, contour @ [current],
          nxt, dir', iterations + 1)"
  by (auto simp: borderLoop.simps [of _ _ _ _ visited] Let_def)

lemma borderLoop_inv:
  assumes "length visited = nat (width * height)" "inImage width height current"
    "\<forall>p \<in> set contour. marked width visited p"
  shows "length (fst (borderLoop binary width height start
                        (visited, contour, current, dir, iterations))) = length visited \<and>
         (\<forall>p \<in> set (snd (borderLoop binary width height start
                        (visited, contour, current, dir, iterations))).
            marked width (fst (borderLoop binary width height start
                        (visited, contour, current, dir, iterations))) p) \<and>
         (\<forall>q. marked width visited q \<longrightarrow>
            marked width (fst (borderLoop binary width height start
                        (visited, contour, current, dir, iterations))) q) \<and>
         (\<exists>rest. snd (borderLoop binary width height start
                        (visited, contour, current, dir, iterations)) = contour @ current # rest)"
  using assms
proof (induction binary width height start "(visited, contour, current, dir, iterations)"
    arbitrary: visited contour current dir iterations rule: borderLoop.induct)
  case (1 binary width height start visited contour current dir iterations)
  let ?c = "contour @ [current]"
  let ?v = "writeAt visited (py current * width + px current) 1"
  have lv: "length ?v = nat (width * height)" using "1.prems"(1) by (simp add: writeAt_length)
  have keep: "marked width ?v q" if "marked width visited q" for q
    using that by (rule writeAt_keeps)
  have mc: "\<forall>p \<in> set ?c. marked width ?v p"
    using "1.prems" keep writeAt_marks [OF "1.prems"(1,2)] by auto
  show ?case
  proof (cases "findNext binary width height current dir")
    case None
    then have "borderLoop binary width height start (visited, contour, current, dir, iterations)
                 = (?v, ?c)"
      by (rule borderLoop_stuck)
    then show ?thesis using lv mc keep "1.prems"(1) by simp
  next
    case (Some nd)
    obtain nxt dir' where nd: "nd = (nxt, dir')" by (cases nd)
    show ?thesis
    proof (cases "\<not> (px nxt = px start \<and> py nxt = py start) \<and> iterations + 1 < width * height")
      case False
      then have "borderLoop binary width height start (visited, contour, current, dir, iterations)
                 = (?v, ?c)"
        using Some nd by (intro borderLoop_stop [of _ _ _ _ _ nxt dir']) auto
      then show ?thesis using lv mc keep "1.prems"(1) by simp
    next
      case True
      then have eq: "borderLoop binary width height start (visited, contour, current, dir, iterations)
                 = borderLoop binary width height start (?v, ?c, nxt, dir', iterations + 1)"
        using Some nd by (intro borderLoop_step) auto
      have ni: "inImage width height nxt"
        using findNext_inImage Some nd by blast
      note IH = "1.hyps" [OF refl refl Some [unfolded nd] refl True lv ni mc]
      show ?thesis
        unfolding eq using IH keep lv "1.prems"(1) by auto
    qed
  qed
qed

lemma traceStep_inv:
  assumes "scanInv width height state" "inImage width height (Point (fst xy) (snd xy))"
  shows "scanInv width height (traceStep binary width height xy state)"
proof -
  let ?x = "fst xy" and ?y = "snd xy"
  let ?visited = "fst state" and ?contours = "snd state"
  let ?start = "Point ?x ?y"
  let ?tr = "borderFollowing binary ?visited ?x ?y width height"
  from assms(1) have lv: "length ?visited = nat (width * height)"
    and mk: "\<forall>c \<in> set ?contours. \<forall>p \<in> set c. marked width ?visited p"
    and sw: "sorted_wrt (\<lambda>c d. d \<noteq> [] \<and> hd d \<notin> set c) ?contours"
    by (simp_all add: scanInv_def)
  show ?thesis
  proof (cases "readAt binary (?y * width + ?x) = Some 255
            \<and> (case readAt ?visited (?y * width + ?x) of None \<Rightarrow> True | Some v \<Rightarrow> v = 0)
            \<and> isEdge binary width height ?x ?y")
    case False
    then have "traceStep binary width height xy state = state"
      by (auto simp: traceStep_def Let_def)
    then show ?thesis using assms(1) by simp
  next
    case True
    then have fresh: "\<not> marked width ?visited ?start"
      by (auto simp: marked_def split: option.splits)
    have ts: "traceStep binary width height xy state =
            (fst ?tr, if length (snd ?tr) \<ge> 10 then ?contours @ [snd ?tr] else ?contours)"
      using True by (simp add: traceStep_def Let_def)
    have inv: "length (fst ?tr) = length ?visited \<and>
               (\<forall>p \<in> set (snd ?tr). marked width (fst ?tr) p) \<and>
               (\<forall>q. marked width ?visited q \<longrightarrow> marked width (fst ?tr) q) \<and>
               (\<exists>rest. snd ?tr = [] @ ?start # rest)"
      unfolding borderFollowing_def
      by (rule borderLoop_inv [OF lv assms(2)]) simp
    then obtain rest where rest: "snd ?tr = ?start # rest" by auto
    have old: "\<forall>c \<in> set ?contours. \<forall>p \<in> set c. marked width (fst ?tr) p"
      using mk inv by blast
    have apart: "\<forall>c \<in> set ?contours. hd (snd ?tr) \<notin> set c"
      using mk fresh rest by auto
    have "sorted_wrt (\<lambda>c d. d \<noteq> [] \<and> hd d \<notin> set c) (?contours @ [snd ?tr])"
      using sw apart rest by (simp add: sorted_wrt_append)
    then show ?thesis
      unfolding ts scanInv_def using inv lv old sw by auto
  qed
qed

lemma scanOrder_inImage:
  assumes "xy \<in> set (scanOrder width height)"
  shows "inImage width height (Point (fst xy) (snd xy))"
  using assms by (auto simp: scanOrder_def inImage_def)

lemma trace_fold_inv:
  assumes "scanInv width height state"
    "\<forall>xy \<in> set xys. inImage width height (Point (fst xy) (snd xy))"
  shows "scanInv width height (fold (traceStep binary width height) xys state)"
  using assms
proof (induction xys arbitrary: state)
  case Nil
  then show ?case by simp
next
  case (Cons xy xys)
  have "scanInv width height (traceStep binary width height xy state)"
    using Cons.prems by (intro traceStep_inv) simp_all
  then show ?case using Cons.IH Cons.prems(2) by simp
qed

lemma traceContours_starts:
  assumes "traceContours binary width height = Inr contours"
  shows "sorted_wrt (\<lambda>c d. d \<noteq> [] \<and> hd d \<notin> set c) contours"
proof -
  from assms have nn: "\<not> width * height < 0"
    and c: "contours = snd (fold (traceStep binary width height) (scanOrder width height)
                       (replicate (nat (width * height)) 0, []))"
    by (auto simp: traceContours_def split: if_splits)
  have "scanInv width height (replicate (nat (width * height)) 0, [])"
    by (simp add: scanInv_def)
  then have "scanInv width height (fold (traceStep binary width height) (scanOrder width height)
                       (replicate (nat (width * height)) 0, []))"
    by (rule trace_fold_inv) (use scanOrder_inImage in blast)
  then show ?thesis using c by (simp add: scanInv_def)
qed

lemma tiny_gray: "toGrayscale tinyBytes 2 2 = Inr [Some 0, Some 1, Some 5, Some 5]"
  by code_simp

lemma tiny_otsu: "otsuThreshold [Some 0, Some 1, Some 5, Some 5] = 1"
  by code_simp

lemma tiny_choose: "chooseThreshold [Some 0, Some 1, Some 5, Some 5] 2 2 = 1"
  by code_simp

lemma tiny_mask: "binarize [Some 0, Some 1, Some 5, Some 5] 1 = [255, 0, 0, 0]"
  by code_simp

section \<open>The claims about the pipeline\<close>

lemma square_shapes: "shapes (detectShapes startTime endTime squareImage) = [squareShape]"
  by (simp add: detectShapes_def square_pipeline)



text \<open>
  Claim C2.  In the list returned by \<open>nonMaxSuppression\<close> at threshold \<open>1 / 2\<close>, and so
  in the list of shapes returned by \<open>detectShapes\<close> for every image, no two shapes at
  different positions have bounding boxes whose intersection over union exceeds
  \<open>1 / 2\<close>; \<open>calculateIoU\<close> is the intersection area over the union area, and 0 when
  the union is not positive.
\<close>

theorem nonMaxSuppression_no_overlap:
  "(\<forall>i j. i < length (nonMaxSuppression found (1 / 2)) \<and>
           j < length (nonMaxSuppression found (1 / 2)) \<and> i \<noteq> j \<longrightarrow>
      calculateIoU (boundingBox (nonMaxSuppression found (1 / 2) ! i))
                   (boundingBox (nonMaxSuppression found (1 / 2) ! j)) \<le> 1 / 2) \<and>
   (\<forall>i j. i < length (shapes (detectShapes startTime endTime imageData)) \<and>
           j < length (shapes (detectShapes startTime endTime imageData)) \<and> i \<noteq> j \<longrightarrow>
      calculateIoU (boundingBox (shapes (detectShapes startTime endTime imageData) ! i))
                   (boundingBox (shapes (detectShapes startTime endTime imageData) ! j)) \<le> 1 / 2)"
proof -
  have a: "sorted_wrt (\<lambda>a b. calculateIoU (boundingBox a) (boundingBox b) \<le> 1 / 2)
             (nonMaxSuppression found (1 / 2))"
    by (rule nonMaxSuppression_apart)
  have b: "sorted_wrt (\<lambda>a b. calculateIoU (boundingBox a) (boundingBox b) \<le> 1 / 2)
             (shapes (detectShapes startTime endTime imageData))"
    using detectShapes_apart [of startTime endTime imageData] by simp
  show ?thesis using apart_nth [OF a] apart_nth [OF b] by blast
qed

text \<open>
  Witness for claim C2: of three shapes the second best overlaps the best with
  intersection over union \<open>81 / 119\<close> and is dropped; the two that are kept do not
  overlap.
\<close>

theorem nonMaxSuppression_no_overlap_witness:
  "nonMaxSuppression [boxed 0.8 1 1 10 10, boxed 0.7 20 20 5 5, boxed 0.9 0 0 10 10] (1 / 2)
     = [boxed 0.9 0 0 10 10, boxed 0.7 20 20 5 5] \<and>
   calculateIoU (boundingBox (boxed 0.9 0 0 10 10)) (boundingBox (boxed 0.8 1 1 10 10)) = 81 / 119 \<and>
   calculateIoU (boundingBox (boxed 0.9 0 0 10 10)) (boundingBox (boxed 0.7 20 20 5 5)) \<le> 1 / 2"
proof -
  let ?in = "[boxed 0.8 1 1 10 10, boxed 0.7 20 20 5 5, boxed 0.9 0 0 10 10]"
  have r: "nonMaxSuppression ?in (1 / 2) = [boxed 0.9 0 0 10 10, boxed 0.7 20 20 5 5]"
    by (simp add: nonMaxSuppression_def sortBy_def boxed_def calculateIoU_def)
  have "calculateIoU (boundingBox (nonMaxSuppression ?in (1 / 2) ! 0))
                     (boundingBox (nonMaxSuppression ?in (1 / 2) ! 1)) \<le> 1 / 2"
    using nonMaxSuppression_no_overlap [of ?in, THEN conjunct1, rule_format, of 0 1] r by simp
  then have "calculateIoU (boundingBox (boxed 0.9 0 0 10 10))
                          (boundingBox (boxed 0.7 20 20 5 5)) \<le> 1 / 2"
    using r by simp
  moreover have "calculateIoU (boundingBox (boxed 0.9 0 0 10 10))
                              (boundingBox (boxed 0.8 1 1 10 10)) = 81 / 119"
    by (simp add: boxed_def calculateIoU_def)
  ultimately show ?thesis using r by simp
qed

text \<open>
  Claim C3.  Every shape in a result of \<open>detectShapes\<close> has a confidence of at least 0.55
  and at most 1.0.
\<close>

theorem confidence_bounds:
  "\<forall>s \<in> set (shapes (detectShapes startTime endTime imageData)).
     0.55 \<le> confidence s \<and> confidence s \<le> 1.0"
proof
  fix s assume "s \<in> set (shapes (detectShapes startTime endTime imageData))"
  from detectShapes_admissible [OF this]
  have "0.55 \<le> confidence s" "confidence s \<le> 0.95" by (simp_all add: admissible_def)
  then show "0.55 \<le> confidence s \<and> confidence s \<le> 1.0" by simp
qed

text \<open>
  Witness for claim C3: the image of the square outline yields one shape, with
  confidence 0.9.
\<close>

theorem confidence_bounds_witness:
  "shapes (detectShapes 0 1 squareImage) = [squareShape] \<and>
   0.55 \<le> confidence squareShape \<and> confidence squareShape \<le> 1.0"
  using confidence_bounds [of 0 1 squareImage] square_shapes [of 0 1] by simp



text \<open>
  Claim C7 as stated fails on the mask of the square outline: two contours are traced,
  and the pixel \<open>(8, 1)\<close> lies on both.  The visited mask is written at every step of a
  walk and read only where a walk starts.
\<close>

theorem contours_share_pixel_counterexample:
  "traceContours squareMask 11 11 = Inr [laps, ring] \<and>
   Point 8 1 \<in> set laps \<and> Point 8 1 \<in> set ring"
proof -
  have "Point 8 1 \<in> set laps" by code_simp
  moreover have "Point 8 1 \<in> set ring" by (simp add: ring_def)
  ultimately show ?thesis using square_trace by simp
qed

text \<open>
  Claim C7, amended.  In the list of contours produced by \<open>traceContours\<close>, no contour
  starts at a pixel that lies on a contour traced before it.
\<close>

theorem contour_starts_fresh:
  assumes "traceContours binary width height = Inr contours"
  shows "\<forall>i j. i < j \<and> j < length contours \<longrightarrow>
           contours ! j \<noteq> [] \<and> hd (contours ! j) \<notin> set (contours ! i)"
  using traceContours_starts [OF assms] by (auto simp: sorted_wrt_iff_nth_less)

text \<open>
  Witness for claim C7: the second contour of the square outline starts at \<open>(9, 1)\<close>,
  which is not on the first.
\<close>

theorem contour_starts_fresh_witness:
  "traceContours squareMask 11 11 = Inr [laps, ring] \<and> ring \<noteq> [] \<and> hd ring = Point 9 1 \<and>
   Point 9 1 \<notin> set laps"
proof -
  have "[laps, ring] ! 1 \<noteq> [] \<and> hd ([laps, ring] ! 1) \<notin> set ([laps, ring] ! 0)"
    using contour_starts_fresh [OF square_trace, rule_format, of 0 1] by simp
  moreover have "hd ring = Point 9 1" by (simp add: ring_def)
  ultimately show ?thesis using square_trace by simp
qed

lemma readAt_member: "readAt arr idx = Some v \<Longrightarrow> v \<in> set arr"
  by (auto simp: readAt_def split: if_splits)

lemma traceStep_blank: "255 \<notin> set binary \<Longrightarrow> traceStep binary width height xy state = state"
  using readAt_member [of binary _ 255] by (auto simp: traceStep_def Let_def)

lemma traceContours_blank:
  assumes "255 \<notin> set binary" "\<not> width * height < 0"
  shows "traceContours binary width height = Inr []"
proof -
  have "fold (traceStep binary width height) xys state = state" for xys state
    by (induction xys) (simp_all add: traceStep_blank [OF assms(1)])
  then show ?thesis using assms(2) by (simp add: traceContours_def)
qed

lemma binarize_no_samples:
  "\<forall>g \<in> set grayscale. g = None \<Longrightarrow> 255 \<notin> set (binarize grayscale threshold)"
  by (auto simp: binarize_def below_def)

lemma pipeline_no_samples:
  assumes "imgWidth imageData * imgHeight imageData = 0 \<or> imgData imageData = []"
    "\<not> imgWidth imageData * imgHeight imageData < 0"
  shows "detectPipeline imageData = Inr []"
proof -
  let ?w = "imgWidth imageData" and ?h = "imgHeight imageData"
  let ?g = "map (\<lambda>i. luma (imgData imageData) (i * 4)) [0 ..< nat (?w * ?h)]"
  have g: "toGrayscale (imgData imageData) ?w ?h = Inr ?g"
    using assms(2) by (simp add: toGrayscale_def)
  have "\<forall>v \<in> set ?g. v = None"
    using assms(1) by (auto simp: luma_def)
  then have "255 \<notin> set (binarize ?g (chooseThreshold ?g ?w ?h))"
    by (rule binarize_no_samples)
  then have "traceContours (binarize ?g (chooseThreshold ?g ?w ?h)) ?w ?h = Inr []"
    using assms(2) by (rule traceContours_blank)
  then show ?thesis
    by (simp add: detectPipeline_def g Let_def nonMaxSuppression_def)
qed

lemma pipeline_negative:
  "imgWidth imageData * imgHeight imageData < 0 \<Longrightarrow>
   detectPipeline imageData = Inl InvalidArrayLength"
  by (simp add: detectPipeline_def toGrayscale_def)

text \<open>
  Claim C4, amended.  \<open>detectShapes\<close> always returns a result with the image's width and
  height and the elapsed time.  When a stage of the pipeline throws (as the allocation
  of the grayscale array does for a negative number of pixels), and when the image has
  no pixels or no bytes, the list of shapes is empty.  A buffer whose length does not
  match its dimensions is not rejected.
\<close>

theorem faults_give_empty_result:
  "(\<forall>e. detectPipeline imageData = Inl e \<longrightarrow>
        detectShapes startTime endTime imageData = emptyResult startTime endTime imageData) \<and>
   (imgWidth imageData * imgHeight imageData < 0 \<longrightarrow>
        detectPipeline imageData = Inl InvalidArrayLength) \<and>
   (imgWidth imageData * imgHeight imageData = 0 \<or> imgData imageData = [] \<longrightarrow>
        detectShapes startTime endTime imageData = emptyResult startTime endTime imageData) \<and>
   processingTime (detectShapes startTime endTime imageData) = endTime - startTime \<and>
   imageWidth (detectShapes startTime endTime imageData) = imgWidth imageData \<and>
   imageHeight (detectShapes startTime endTime imageData) = imgHeight imageData"
proof -
  have a: "detectShapes startTime endTime imageData = emptyResult startTime endTime imageData"
    if "detectPipeline imageData = Inl e" for e
    using that by (simp add: detectShapes_def emptyResult_def)
  have b: "detectShapes startTime endTime imageData = emptyResult startTime endTime imageData"
    if "imgWidth imageData * imgHeight imageData = 0 \<or> imgData imageData = []"
  proof (cases "imgWidth imageData * imgHeight imageData < 0")
    case True
    then show ?thesis using a pipeline_negative by blast
  next
    case False
    from pipeline_no_samples [OF that False] show ?thesis
      by (simp add: detectShapes_def emptyResult_def)
  qed
  have c: "processingTime (detectShapes startTime endTime imageData) = endTime - startTime \<and>
   imageWidth (detectShapes startTime endTime imageData) = imgWidth imageData \<and>
   imageHeight (detectShapes startTime endTime imageData) = imgHeight imageData"
    by (simp add: detectShapes_def split: sum.splits)
  show ?thesis using a b c pipeline_negative by blast
qed

text \<open>
  Witness for claim C4: an image of negative width, where \<open>toGrayscale\<close> throws, and an
  image without pixels.
\<close>

theorem faults_give_empty_result_witness:
  "imgWidth inverted * imgHeight inverted < 0 \<and>
   detectPipeline inverted = Inl InvalidArrayLength \<and>
   detectShapes 0 1 inverted
     = \<lparr>shapes = [], processingTime = 1, imageWidth = - 11, imageHeight = 11\<rparr> \<and>
   imgData noPixels = [] \<and>
   detectShapes 0 1 noPixels
     = \<lparr>shapes = [], processingTime = 1, imageWidth = 0, imageHeight = 0\<rparr>"
proof -
  have n: "imgWidth inverted * imgHeight inverted < 0" by (simp add: inverted_def)
  have p: "detectPipeline inverted = Inl InvalidArrayLength"
    using faults_give_empty_result [of inverted 0 1] n by blast
  have "detectShapes 0 1 inverted = emptyResult 0 1 inverted"
    using faults_give_empty_result [of inverted 0 1] p by blast
  moreover have "detectShapes 0 1 noPixels = emptyResult 0 1 noPixels"
    using faults_give_empty_result [of noPixels 0 1] by (simp add: noPixels_def)
  ultimately show ?thesis
    using n p by (simp add: emptyResult_def inverted_def noPixels_def)
qed

text \<open>
  Claim C4 as stated fails on a malformed buffer: the image of the square outline with
  480 bytes instead of 484 still yields the rectangle.
\<close>

theorem malformed_buffer_counterexample:
  "length (imgData clippedImage) = 480 \<and>
   imgWidth clippedImage * imgHeight clippedImage * 4 = 484 \<and>
   shapes (detectShapes 0 1 clippedImage) = [squareShape]"
proof -
  have "shapes (detectShapes 0 1 clippedImage) = [squareShape]"
    by (simp add: detectShapes_def clipped_pipeline)
  then show ?thesis by (simp add: clippedImage_def squareBytes_length)
qed

text \<open>
  Claim C6.  In the binarization of the grayscale image, the threshold is the Otsu
  threshold if the fraction of the pixels whose luminance is below the Otsu threshold
  lies strictly between 0.05 and 0.50, and 128 otherwise; a pixel of the mask is
  foreground (255) if and only if its luminance is strictly less than the threshold,
  and background (0) otherwise.
\<close>

theorem binarization_rule:
  assumes "toGrayscale bytes width height = Inr grayscale"
  shows "chooseThreshold grayscale width height =
           (if 0.05 < real (card {i. i < length grayscale \<and>
                                    (\<exists>v. grayscale ! i = Some v \<and> v < real (otsuThreshold grayscale))})
                        / real (length grayscale) \<and>
               real (card {i. i < length grayscale \<and>
                                    (\<exists>v. grayscale ! i = Some v \<and> v < real (otsuThreshold grayscale))})
                        / real (length grayscale) < 0.50
            then otsuThreshold grayscale else 128) \<and>
         length (binarize grayscale threshold) = length grayscale \<and>
         (\<forall>i < length grayscale.
            (binarize grayscale threshold ! i = 255)
              = (\<exists>v. grayscale ! i = Some v \<and> v < real threshold) \<and>
            (binarize grayscale threshold ! i = 0)
              = (\<not> (\<exists>v. grayscale ! i = Some v \<and> v < real threshold)))"
proof -
  have b: "below g t = (\<exists>v. g = Some v \<and> v < t)" for g t
    by (cases g) (simp_all add: below_def)
  from assms have "real_of_int (width * height) = real (length grayscale)"
    by (auto simp: toGrayscale_def split: if_splits)
  then have len: "real_of_int width * real_of_int height = real (length grayscale)" by simp
  have "otsuForeground grayscale (otsuThreshold grayscale)
          = card {i. i < length grayscale \<and>
                     (\<exists>v. grayscale ! i = Some v \<and> v < real (otsuThreshold grayscale))}"
    by (simp add: otsuForeground_filter length_filter_conv_card b)
  then have "chooseThreshold grayscale width height =
           (if 0.05 < real (card {i. i < length grayscale \<and>
                                    (\<exists>v. grayscale ! i = Some v \<and> v < real (otsuThreshold grayscale))})
                        / real (length grayscale) \<and>
               real (card {i. i < length grayscale \<and>
                                    (\<exists>v. grayscale ! i = Some v \<and> v < real (otsuThreshold grayscale))})
                        / real (length grayscale) < 0.50
            then otsuThreshold grayscale else 128)"
    by (simp add: chooseThreshold_def Let_def len)
  moreover have "length (binarize grayscale threshold) = length grayscale"
    by (simp add: binarize_def)
  moreover have "\<forall>i < length grayscale.
            (binarize grayscale threshold ! i = 255)
              = (\<exists>v. grayscale ! i = Some v \<and> v < real threshold) \<and>
            (binarize grayscale threshold ! i = 0)
              = (\<not> (\<exists>v. grayscale ! i = Some v \<and> v < real threshold))"
    by (simp add: binarize_def b)
  ultimately show ?thesis by blast
qed

text \<open>
  Witness for claim C6: on the grey levels 0, 1, 5, 5 the Otsu threshold is 1, a quarter
  of the pixels is below it, the threshold 1 is chosen and the first pixel alone is
  foreground.
\<close>

theorem binarization_rule_witness:
  "toGrayscale tinyBytes 2 2 = Inr [Some 0, Some 1, Some 5, Some 5] \<and>
   otsuThreshold [Some 0, Some 1, Some 5, Some 5] = 1 \<and>
   chooseThreshold [Some 0, Some 1, Some 5, Some 5] 2 2 = 1 \<and>
   binarize [Some 0, Some 1, Some 5, Some 5] 1 = [255, 0, 0, 0] \<and>
   binarize [Some 0, Some 1, Some 5, Some 5] 1 ! 0 = 255 \<and>
   binarize [Some 0, Some 1, Some 5, Some 5] 1 ! 1 \<noteq> 255"
proof -
  let ?g = "[Some 0, Some 1, Some 5, Some (5::real)]"
  note r = binarization_rule [OF tiny_gray, of 1]
  have "(binarize ?g 1 ! 0 = 255) = (\<exists>v. ?g ! 0 = Some v \<and> v < real 1)"
    using r [THEN conjunct2, THEN conjunct2, rule_format, of 0] by simp
  then have a: "binarize ?g 1 ! 0 = 255" by simp
  have "(binarize ?g 1 ! 1 = 255) = (\<exists>v. ?g ! 1 = Some v \<and> v < real 1)"
    using r [THEN conjunct2, THEN conjunct2, rule_format, of 1] by simp
  then have b: "binarize ?g 1 ! 1 \<noteq> 255" by simp
  show ?thesis using a b tiny_gray tiny_otsu tiny_choose tiny_mask by simp
qed

section \<open>The convex hull\<close>

subsection \<open>Vectors and turns\<close>


lemma det2_self [simp]: "det2 u u = 0"
  by (simp add: det2_def)











lemma turn_same [simp]: "turn a b a = 0" "turn a b b = 0" "turn a a b = 0"
  by (simp_all add: turn_def det2_def)






subsection \<open>Sorting by a comparator\<close>



subsection \<open>The order of the hull sort\<close>





subsection \<open>The pivot\<close>






subsection \<open>From the comparator to the angular order\<close>

lemma rel_self [simp]: "rel s s = (0, 0)"
  by (simp add: rel_def)

lemma ang_origin [simp]: "ang (0, 0) v"
  unfolding ang_def det2_def by (auto intro: exI [of _ 0])





subsection \<open>The pop loop\<close>



subsection \<open>The scan\<close>












end
